theory Spec2Isabelle
  imports Main "HOL-Library.AList"
begin

section \<open>The route tree of route.go\<close>

text \<open>
  The router keeps one tree of nodes per HTTP method. A node is reached through exactly one
  slot of its parent (a key of \<open>children\<close>, or \<open>starChild\<close>, \<open>paramChild\<close>,
  \<open>regChild\<close>), and nodes are only ever created inside \<open>childOrCreate\<close>, so no two
  slots alias: the pointer structure is a tree and is modelled as a recursive datatype.
  Strings are byte lists. A handler is a value of an arbitrary type \<open>'h\<close>; the nil
  handler is \<open>None\<close>. The compiled regular expression is a value of an arbitrary type
  \<open>'re\<close>; \<open>regexp.Compile\<close>, which belongs to the Go library, is a parameter
  \<open>cmp\<close> of the functions that call it (\<open>None\<close> is the nil pointer that Compile
  returns together with an error).
\<close>

subsection \<open>Errors\<close>

text \<open>One constructor per panic of the source, carrying what the message is formatted with.\<close>

datatype error =
    ErrEmptyPath
  | ErrNoLeadingSlash
  | ErrTrailingSlash
  | ErrEmptySegment string
  | ErrRouteConflict string
  | ErrStarHasReg
  | ErrStarHasParam
  | ErrRegHasParam string
  | ErrRegHasStar string
  | ErrRegConflict string string
  | ErrParamHasReg string
  | ErrParamHasStar string
  | ErrParamConflict string string
  | ErrRuntime

text \<open>The two kinds of registration error; \<open>ErrRuntime\<close> (an index or a slice out of
  range) is neither.\<close>

fun isValidationError :: "error \<Rightarrow> bool" where
  "isValidationError ErrEmptyPath = True"
| "isValidationError ErrNoLeadingSlash = True"
| "isValidationError ErrTrailingSlash = True"
| "isValidationError (ErrEmptySegment p) = True"
| "isValidationError e = False"

fun isConflictError :: "error \<Rightarrow> bool" where
  "isConflictError (ErrRouteConflict p) = True"
| "isConflictError ErrStarHasReg = True"
| "isConflictError ErrStarHasParam = True"
| "isConflictError (ErrRegHasParam p) = True"
| "isConflictError (ErrRegHasStar p) = True"
| "isConflictError (ErrRegConflict old p) = True"
| "isConflictError (ErrParamHasReg p) = True"
| "isConflictError (ErrParamHasStar p) = True"
| "isConflictError (ErrParamConflict old p) = True"
| "isConflictError e = False"

subsection \<open>Nodes and the router\<close>

datatype nodeType = nodeTypeStatic | nodeTypeReg | nodeTypeParam | nodeTypeAny

text \<open>The fields of \<open>node\<close> in the order of the struct. \<open>children\<close> is \<open>None\<close> for the
  nil map; an allocated map is an association list with one entry per key.\<close>

datatype ('h, 're) node = Node
  (typ': nodeType)
  (path: string)
  (children: "(string \<times> ('h, 're) node) list option")
  (handler: "'h option")
  (starChild: "('h, 're) node option")
  (paramChild: "('h, 're) node option")
  (paramName: string)
  (regChild: "('h, 're) node option")
  (regExpr: "'re option")

record ('h, 're) router =
  trees :: "string \<rightharpoonup> ('h, 're) node"

definition newRouter :: "('h, 're) router" where
  "newRouter = \<lparr>trees = Map.empty\<rparr>"

text \<open>Field assignments \<open>n.f = v\<close>.\<close>

fun set_children :: "('h, 're) node \<Rightarrow> (string \<times> ('h, 're) node) list option \<Rightarrow> ('h, 're) node" where
  "set_children (Node t p cs h st pc pn rc re) v = Node t p v h st pc pn rc re"

fun set_handler :: "('h, 're) node \<Rightarrow> 'h option \<Rightarrow> ('h, 're) node" where
  "set_handler (Node t p cs h st pc pn rc re) v = Node t p cs v st pc pn rc re"

fun set_starChild :: "('h, 're) node \<Rightarrow> ('h, 're) node option \<Rightarrow> ('h, 're) node" where
  "set_starChild (Node t p cs h st pc pn rc re) v = Node t p cs h v pc pn rc re"

fun set_paramChild :: "('h, 're) node \<Rightarrow> ('h, 're) node option \<Rightarrow> ('h, 're) node" where
  "set_paramChild (Node t p cs h st pc pn rc re) v = Node t p cs h st v pn rc re"

fun set_regChild :: "('h, 're) node \<Rightarrow> ('h, 're) node option \<Rightarrow> ('h, 're) node" where
  "set_regChild (Node t p cs h st pc pn rc re) v = Node t p cs h st pc pn v re"

text \<open>The composite literal \<open>&node{path: p, typ: t}\<close>: every other field is zero.\<close>

definition newNode :: "string \<Rightarrow> nodeType \<Rightarrow> ('h, 're) node" where
  "newNode p t = Node t p None None None None [] None None"

text \<open>Reading \<open>n.children[k]\<close>; reading a nil map finds nothing.\<close>

definition childrenList :: "('h, 're) node \<Rightarrow> (string \<times> ('h, 're) node) list" where
  "childrenList n = (case children n of None \<Rightarrow> [] | Some cs \<Rightarrow> cs)"

subsection \<open>Library calls on strings\<close>

text \<open>\<open>strings.Split(s, "/")\<close>: the pieces between the separators, one piece for a string
  without separator (also for the empty string).\<close>

fun splitSlash :: "string \<Rightarrow> string list" where
  "splitSlash [] = [[]]"
| "splitSlash (c # cs) =
     (if c = CHR ''/'' then [] # splitSlash cs
      else (case splitSlash cs of [] \<Rightarrow> [[c]] | x # xs \<Rightarrow> (c # x) # xs))"

text \<open>\<open>strings.Index(s, "(")\<close> for a one-byte separator: the first position, \<open>-1\<close> if there
  is none.\<close>

definition strIndex :: "string \<Rightarrow> char \<Rightarrow> int" where
  "strIndex s c = (if c \<in> set s then int (length (takeWhile (\<lambda>x. x \<noteq> c) s)) else - 1)"

text \<open>The slice expression \<open>s[a:b]\<close>, which panics unless \<open>0 \<le> a \<le> b \<le> len(s)\<close>.\<close>

definition slice :: "string \<Rightarrow> int \<Rightarrow> int \<Rightarrow> error + string" where
  "slice s a b =
     (if 0 \<le> a \<and> a \<le> b \<and> b \<le> int (length s)
      then Inr (take (nat (b - a)) (drop (nat a) s))
      else Inl ErrRuntime)"

text \<open>
  \<open>regexp.MatchString("^:.+\\(.+\\)$", path)\<close>. The pattern is fixed and valid, so the
  error result is nil and the boolean says whether the whole string is a colon, one or more
  characters other than newline, an opening parenthesis, one or more characters other than
  newline, and a closing parenthesis at the very end. On bytes: the first byte is a colon,
  the last one a closing parenthesis, no newline lies between them, and an opening
  parenthesis lies between them with at least one byte on each side.
\<close>

definition isRegPath :: "string \<Rightarrow> bool" where
  "isRegPath p =
     (case p of
        [] \<Rightarrow> False
      | c # rest \<Rightarrow>
          c = CHR '':'' \<and> rest \<noteq> [] \<and> last rest = CHR '')'' \<and>
          CHR 0x0A \<notin> set (butlast rest) \<and>
          CHR ''('' \<in> set (butlast (tl (butlast rest))))"

subsection \<open>childOrCreate\<close>

text \<open>
  \<open>childOrCreate\<close> mutates the receiver and returns a pointer into it. The model returns
  the receiver after the call together with the node the pointer refers to; writing through
  the pointer afterwards is \<open>setChild\<close> below. Every panic of \<open>childOrCreate\<close> comes
  before its first assignment, so a failing call leaves the receiver as it was.
\<close>

definition childOrCreate ::
  "(string \<Rightarrow> 're option) \<Rightarrow> ('h, 're) node \<Rightarrow> string \<Rightarrow> error + (('h, 're) node \<times> ('h, 're) node)" where
  "childOrCreate cmp n p =
     (if p = ''*'' then
        (case starChild n of
           None \<Rightarrow>
             if regChild n \<noteq> None then Inl ErrStarHasReg
             else if paramChild n \<noteq> None then Inl ErrStarHasParam
             else (let c = newNode ''*'' nodeTypeAny in Inr (set_starChild n (Some c), c))
         | Some c \<Rightarrow> Inr (n, c))
      else
        (case p of
           [] \<Rightarrow> Inl ErrRuntime
         | c0 # _ \<Rightarrow>
             if c0 = CHR '':'' then
               if isRegPath p then
                 if paramChild n \<noteq> None then Inl (ErrRegHasParam p)
                 else if starChild n \<noteq> None then Inl (ErrRegHasStar p)
                 else
                   (case regChild n of
                      Some c \<Rightarrow> if path c \<noteq> p then Inl (ErrRegConflict (path c) p) else Inr (n, c)
                    | None \<Rightarrow>
                        (let idx = strIndex p CHR ''('' in
                         case slice p 1 idx of
                           Inl e \<Rightarrow> Inl e
                         | Inr paraName \<Rightarrow>
                             (case slice p (idx + 1) (int (length p) - 1) of
                                Inl e \<Rightarrow> Inl e
                              | Inr expr \<Rightarrow>
                                  (let c = Node nodeTypeReg p None None None None paraName None (cmp expr)
                                   in Inr (set_regChild n (Some c), c)))))
               else
                 if regChild n \<noteq> None then Inl (ErrParamHasReg p)
                 else if starChild n \<noteq> None then Inl (ErrParamHasStar p)
                 else
                   (case paramChild n of
                      Some c \<Rightarrow> if path c \<noteq> p then Inl (ErrParamConflict (path c) p) else Inr (n, c)
                    | None \<Rightarrow>
                        (case slice p 1 (int (length p)) of
                           Inl e \<Rightarrow> Inl e
                         | Inr paraName \<Rightarrow>
                             (let c = Node nodeTypeParam p None None None None paraName None None
                              in Inr (set_paramChild n (Some c), c))))
             else
               (let cs = childrenList n in
                case map_of cs p of
                  Some target \<Rightarrow> Inr (set_children n (Some cs), target)
                | None \<Rightarrow>
                    (let target = newNode p nodeTypeStatic
                     in Inr (set_children n (Some (AList.update p target cs)), target)))))"

text \<open>
  The slot of \<open>n\<close> that \<open>childOrCreate n p\<close> returns a pointer to, as a store: the
  assignments that \<open>addRoute\<close> makes below the returned node are visible from \<open>n\<close>.
\<close>

definition setChild :: "('h, 're) node \<Rightarrow> string \<Rightarrow> ('h, 're) node \<Rightarrow> ('h, 're) node" where
  "setChild n p c =
     (if p = ''*'' then set_starChild n (Some c)
      else if p \<noteq> [] \<and> hd p = CHR '':'' then
        (if isRegPath p then set_regChild n (Some c) else set_paramChild n (Some c))
      else set_children n (Some (AList.update p c (childrenList n))))"

subsection \<open>addRoute\<close>

text \<open>
  The loop over the segments and the final assignment of the handler, from the node the
  loop variable \<open>root\<close> points to. The result is that node after the walk and the
  panic, if any: a panic leaves in place every node created before it.
\<close>

fun addSegs ::
  "(string \<Rightarrow> 're option) \<Rightarrow> ('h, 're) node \<Rightarrow> string list \<Rightarrow> string \<Rightarrow> 'h option
     \<Rightarrow> ('h, 're) node \<times> error option" where
  "addSegs cmp n [] pth h =
     (if handler n \<noteq> None then (n, Some (ErrRouteConflict pth))
      else (set_handler n h, None))"
| "addSegs cmp n (s # ss) pth h =
     (if s = [] then (n, Some (ErrEmptySegment pth))
      else
        (case childOrCreate cmp n s of
           Inl e \<Rightarrow> (n, Some e)
         | Inr (n', c) \<Rightarrow>
             (case addSegs cmp c ss pth h of
                (c', e) \<Rightarrow> (setChild n' s c', e))))"

definition addRoute ::
  "(string \<Rightarrow> 're option) \<Rightarrow> ('h, 're) router \<Rightarrow> string \<Rightarrow> string \<Rightarrow> 'h option
     \<Rightarrow> ('h, 're) router \<times> error option" where
  "addRoute cmp r method pth h =
     (if pth = [] then (r, Some ErrEmptyPath)
      else if hd pth \<noteq> CHR ''/'' then (r, Some ErrNoLeadingSlash)
      else if pth \<noteq> ''/'' \<and> last pth = CHR ''/'' then (r, Some ErrTrailingSlash)
      else
        (let root = (case trees r method of
                       Some n \<Rightarrow> n
                     | None \<Rightarrow> Node nodeTypeStatic ''/'' None None None None [] None None)
         in
           if pth = ''/'' then
             (if handler root \<noteq> None
              then (r\<lparr>trees := (trees r)(method \<mapsto> root)\<rparr>, Some (ErrRouteConflict ''/''))
              else (r\<lparr>trees := (trees r)(method \<mapsto> set_handler root h)\<rparr>, None))
           else
             (case addSegs cmp root (splitSlash (tl pth)) pth h of
                (root', e) \<Rightarrow> (r\<lparr>trees := (trees r)(method \<mapsto> root')\<rparr>, e))))"

subsection \<open>findRoute\<close>

text \<open>
  In route.go the bodies of \<open>findRoute\<close> and \<open>childOf\<close> are the placeholder
  \<open>panic("implement me")\<close>; the matching they are to perform is given by section 4.3 of
  the specification and by the comment on the type \<open>node\<close> (static, then regular
  expression, then parameter, then wildcard, without backtracking). Whether a compiled
  expression matches a segment is decided by the Go library and is the parameter \<open>mt\<close>.
\<close>

record ('h, 're) matchInfo =
  matched :: "('h, 're) node"
  pathParams :: "string \<rightharpoonup> string"

text \<open>Modelled from the spec: the branch of step 5b of section 4.3, which is missing from
  route.go: a regex child exists and its compiled pattern matches the segment. A child
  without compiled pattern matches nothing.\<close>

definition regMatch :: "('re \<Rightarrow> string \<Rightarrow> bool) \<Rightarrow> ('h, 're) node \<Rightarrow> string \<Rightarrow> ('h, 're) node option" where
  "regMatch mt n s =
     (case regChild n of
        None \<Rightarrow> None
      | Some c \<Rightarrow> (case regExpr c of None \<Rightarrow> None | Some re \<Rightarrow> if mt re s then Some c else None))"

text \<open>Modelled from the spec: steps 4 to 7 of section 4.3 (the walk over the segments),
  which are missing from route.go.\<close>

fun findSegs ::
  "('re \<Rightarrow> string \<Rightarrow> bool) \<Rightarrow> ('h, 're) node \<Rightarrow> string list \<Rightarrow> (string \<rightharpoonup> string)
     \<Rightarrow> ('h, 're) matchInfo option" where
  "findSegs mt cur [] ps =
     (if handler cur \<noteq> None then Some \<lparr>matched = cur, pathParams = ps\<rparr> else None)"
| "findSegs mt cur (s # ss) ps =
     (case map_of (childrenList cur) s of
        Some c \<Rightarrow> findSegs mt c ss ps
      | None \<Rightarrow>
          (case regMatch mt cur s of
             Some c \<Rightarrow> findSegs mt c ss (ps(paramName c \<mapsto> s))
           | None \<Rightarrow>
               (case paramChild cur of
                  Some c \<Rightarrow> findSegs mt c ss (ps(paramName c \<mapsto> s))
                | None \<Rightarrow>
                    (case starChild cur of
                       Some c \<Rightarrow> findSegs mt c ss ps
                     | None \<Rightarrow> None))))"

text \<open>Modelled from the spec: steps 1 to 3 of section 4.3, the body of \<open>findRoute\<close>
  that is missing from route.go. \<open>None\<close> is the result \<open>found = false\<close>.\<close>

definition findRoute ::
  "('re \<Rightarrow> string \<Rightarrow> bool) \<Rightarrow> ('h, 're) router \<Rightarrow> string \<Rightarrow> string \<Rightarrow> ('h, 're) matchInfo option" where
  "findRoute mt r method pth =
     (case trees r method of
        None \<Rightarrow> None
      | Some root \<Rightarrow>
          if pth = ''/'' then
            (if handler root \<noteq> None then Some \<lparr>matched = root, pathParams = Map.empty\<rparr> else None)
          else findSegs mt root (splitSlash (tl pth)) Map.empty)"

section \<open>Notions used to state the properties\<close>

subsection \<open>Segments\<close>

text \<open>The name and the expression that \<open>childOrCreate\<close> cuts out of a segment of the
  shape of a regular expression: the text between the colon and the first opening
  parenthesis, and the text between that parenthesis and the last byte.\<close>

definition regName :: "string \<Rightarrow> string" where
  "regName p = takeWhile (\<lambda>x. x \<noteq> CHR ''('') (tl p)"

definition regExprText :: "string \<Rightarrow> string" where
  "regExprText p = butlast (tl (dropWhile (\<lambda>x. x \<noteq> CHR ''('') p))"

text \<open>The segments that reach the last branch of \<open>childOrCreate\<close>, and those that reach
  the parameter branch.\<close>

definition isStaticSeg :: "string \<Rightarrow> bool" where
  "isStaticSeg p \<longleftrightarrow> p \<noteq> ''*'' \<and> p \<noteq> [] \<and> hd p \<noteq> CHR '':''"

definition isParamSeg :: "string \<Rightarrow> bool" where
  "isParamSeg p \<longleftrightarrow> p \<noteq> [] \<and> hd p = CHR '':'' \<and> \<not> isRegPath p"

text \<open>The paths that pass the three checks at the head of \<open>addRoute\<close> and have no empty
  segment.\<close>

definition validPath :: "string \<Rightarrow> bool" where
  "validPath p \<longleftrightarrow>
     p \<noteq> [] \<and> hd p = CHR ''/'' \<and> (p = ''/'' \<or> last p \<noteq> CHR ''/'') \<and>
     (p = ''/'' \<or> [] \<notin> set (splitSlash (tl p)))"

subsection \<open>Reading the tree\<close>

text \<open>The slot a segment resolves to, read without creating anything.\<close>

definition childSlot :: "('h, 're) node \<Rightarrow> string \<Rightarrow> ('h, 're) node option" where
  "childSlot n p =
     (if p = ''*'' then starChild n
      else if p \<noteq> [] \<and> hd p = CHR '':'' then (if isRegPath p then regChild n else paramChild n)
      else map_of (childrenList n) p)"

fun nodeAt :: "('h, 're) node \<Rightarrow> string list \<Rightarrow> ('h, 're) node option" where
  "nodeAt n [] = Some n"
| "nodeAt n (s # ss) = (case childSlot n s of None \<Rightarrow> None | Some c \<Rightarrow> nodeAt c ss)"

text \<open>The segments \<open>addRoute\<close> walks for a path (none for the root path), and the
  handler stored at the node a path leads to.\<close>

definition segsOf :: "string \<Rightarrow> string list" where
  "segsOf pth = (if pth = ''/'' then [] else splitSlash (tl pth))"

definition handlerBelow :: "('h, 're) node \<Rightarrow> string list \<Rightarrow> 'h option" where
  "handlerBelow n ss = (case nodeAt n ss of None \<Rightarrow> None | Some nd \<Rightarrow> handler nd)"

definition handlerAt :: "('h, 're) router \<Rightarrow> string \<Rightarrow> string \<Rightarrow> 'h option" where
  "handlerAt r method pth =
     (case trees r method of
        None \<Rightarrow> None
      | Some root \<Rightarrow> (case nodeAt root (segsOf pth) of None \<Rightarrow> None | Some nd \<Rightarrow> handler nd))"

text \<open>A node without any child and without handler.\<close>

definition isBare :: "('h, 're) node \<Rightarrow> bool" where
  "isBare n \<longleftrightarrow>
     handler n = None \<and> childrenList n = [] \<and> starChild n = None \<and> paramChild n = None \<and>
     regChild n = None"

text \<open>Every segment of regex shape in the list has an expression that compiles to a
  pattern which matches the text of the segment itself.\<close>

definition selfMatching ::
  "(string \<Rightarrow> 're option) \<Rightarrow> ('re \<Rightarrow> string \<Rightarrow> bool) \<Rightarrow> string list \<Rightarrow> bool" where
  "selfMatching cmp mt ss \<longleftrightarrow>
     list_all (\<lambda>s. isRegPath s \<longrightarrow> (case cmp (regExprText s) of None \<Rightarrow> False | Some re \<Rightarrow> mt re s)) ss"

subsection \<open>Invariants\<close>

text \<open>At most one of the three special children of a node is present.\<close>

definition exclusive :: "('h, 're) node \<Rightarrow> bool" where
  "exclusive n \<longleftrightarrow>
     (paramChild n = None \<and> regChild n = None) \<or>
     (paramChild n = None \<and> starChild n = None) \<or>
     (regChild n = None \<and> starChild n = None)"

text \<open>What registration keeps true of every node: the three special children exclude each
  other, and every child is what \<open>childOrCreate\<close> creates for the segment it is stored
  under: a key of \<open>children\<close> is a static segment and the path of its node, the
  wildcard child has path \<open>*\<close>, the parameter child is named by its path, and the regex
  child is named by its path and carries the result of compiling the expression in it.\<close>

definition nodeInv :: "(string \<Rightarrow> 're option) \<Rightarrow> ('h, 're) node \<Rightarrow> bool" where
  "nodeInv cmp n \<longleftrightarrow>
     exclusive n \<and>
     list_all (\<lambda>kc. isStaticSeg (fst kc) \<and> path (snd kc) = fst kc \<and> typ' (snd kc) = nodeTypeStatic)
       (childrenList n) \<and>
     (case starChild n of
        None \<Rightarrow> True
      | Some c \<Rightarrow> path c = ''*'' \<and> typ' c = nodeTypeAny) \<and>
     (case paramChild n of
        None \<Rightarrow> True
      | Some c \<Rightarrow> isParamSeg (path c) \<and> typ' c = nodeTypeParam \<and> paramName c = tl (path c)) \<and>
     (case regChild n of
        None \<Rightarrow> True
      | Some c \<Rightarrow>
          isRegPath (path c) \<and> typ' c = nodeTypeReg \<and> paramName c = regName (path c) \<and>
          regExpr c = cmp (regExprText (path c)))"

text \<open>The children of a node, and a property of every node of a tree.\<close>

definition kids :: "('h, 're) node \<Rightarrow> ('h, 're) node set" where
  "kids n =
     snd ` set (childrenList n) \<union> set_option (starChild n) \<union> set_option (paramChild n) \<union>
     set_option (regChild n)"


fun allNodes :: "(('h, 're) node \<Rightarrow> bool) \<Rightarrow> ('h, 're) node \<Rightarrow> bool" where
  "allNodes P (Node t p cs h st pc pn rc re) =
     (P (Node t p cs h st pc pn rc re) \<and>
      (case cs of None \<Rightarrow> True | Some l \<Rightarrow> list_all (\<lambda>kc. allNodes P (snd kc)) l) \<and>
      (case st of None \<Rightarrow> True | Some c \<Rightarrow> allNodes P c) \<and>
      (case pc of None \<Rightarrow> True | Some c \<Rightarrow> allNodes P c) \<and>
      (case rc of None \<Rightarrow> True | Some c \<Rightarrow> allNodes P c))"

definition allTrees :: "(('h, 're) node \<Rightarrow> bool) \<Rightarrow> ('h, 're) router \<Rightarrow> bool" where
  "allTrees P r \<longleftrightarrow> (\<forall>root \<in> ran (trees r). allNodes P root)"

text \<open>The routers that calls of \<open>addRoute\<close> produce from the empty router. A call that
  panics also leaves a router behind (see \<open>addSegs\<close>); it is included, so what holds of
  every reachable router holds in particular after successful calls only.\<close>

inductive reachable :: "(string \<Rightarrow> 're option) \<Rightarrow> ('h, 're) router \<Rightarrow> bool"
  for cmp :: "string \<Rightarrow> 're option" where
  reachable_new: "reachable cmp newRouter"
| reachable_add: "reachable cmp r \<Longrightarrow> reachable cmp (fst (addRoute cmp r method pth h))"

subsection \<open>Trees up to the compiled expressions\<close>

text \<open>The tree with every compiled expression removed: what is left of a tree when the
  results of \<open>regexp.Compile\<close> are disregarded.\<close>

fun eraseRe :: "('h, 're) node \<Rightarrow> ('h, 're) node" where
  "eraseRe (Node t p cs h st pc pn rc re) =
     Node t p (map_option (map (\<lambda>kc. (fst kc, eraseRe (snd kc)))) cs) h
       (map_option eraseRe st) (map_option eraseRe pc) pn (map_option eraseRe rc) None"

definition eraseTrees :: "('h, 're) router \<Rightarrow> (string \<rightharpoonup> ('h, 're) node)" where
  "eraseTrees r = (\<lambda>m. map_option eraseRe (trees r m))"

subsection \<open>An instance of the regular-expression library for the examples\<close>

text \<open>
  The theorems below hold for every \<open>cmp\<close> and \<open>mt\<close>. To evaluate them on examples, the
  library is instantiated on three expressions only: \<open>^[0-9]+$\<close>, which compiles and
  matches the nonempty strings of decimal digits; \<open>.*\<close>, which compiles and matches the
  strings without newline; and \<open>[\<close>, which does not compile (a bracket that is never
  closed). Other expressions are not used in the examples; the instance treats them as not
  compiling.
\<close>

datatype regex = Digits | AnyText

definition exampleCompile :: "string \<Rightarrow> regex option" where
  "exampleCompile e =
     (if e = ''^[0-9]+$'' then Some Digits else if e = ''.*'' then Some AnyText else None)"

fun exampleMatch :: "regex \<Rightarrow> string \<Rightarrow> bool" where
  "exampleMatch Digits s \<longleftrightarrow> s \<noteq> [] \<and> list_all (\<lambda>c. c \<in> set ''0123456789'') s"
| "exampleMatch AnyText s \<longleftrightarrow> CHR 0x0A \<notin> set s"

subsection \<open>Example routers\<close>

text \<open>Handlers are natural numbers in the examples.\<close>

definition routerA :: "(nat, regex) router" where
  "routerA = fst (addRoute exampleCompile newRouter ''GET'' ''/a'' (Some 0))"

definition routerHome :: "(nat, regex) router" where
  "routerHome = fst (addRoute exampleCompile routerA ''GET'' ''/user/home'' (Some 1))"

definition routerRoot :: "(nat, regex) router" where
  "routerRoot = fst (addRoute exampleCompile newRouter ''GET'' ''/'' (Some 7))"

text \<open>The root node that \<open>addRoute\<close> allocates for a method without tree.\<close>

definition bareRoot :: "(nat, regex) node" where
  "bareRoot = Node nodeTypeStatic ''/'' None None None None [] None None"

text \<open>Nodes with one special child, as \<open>childOrCreate\<close> leaves them.\<close>

definition nodeWithId :: "(nat, regex) node" where
  "nodeWithId =
     set_paramChild bareRoot (Some (Node nodeTypeParam '':id'' None None None None ''id'' None None))"

definition nodeWithDigits :: "(nat, regex) node" where
  "nodeWithDigits =
     set_regChild bareRoot
       (Some (Node nodeTypeReg '':id(^[0-9]+$)'' None None None None ''id'' None (Some Digits)))"

definition nodeWithStar :: "(nat, regex) node" where
  "nodeWithStar = set_starChild bareRoot (Some (newNode ''*'' nodeTypeAny))"

definition routerUserId :: "(nat, regex) router" where
  "routerUserId = fst (addRoute exampleCompile newRouter ''GET'' ''/user/:id'' (Some 1))"

definition routerUserStar :: "(nat, regex) router" where
  "routerUserStar = fst (addRoute exampleCompile newRouter ''GET'' ''/user/*'' (Some 1))"

definition routerUserDigits :: "(nat, regex) router" where
  "routerUserDigits = fst (addRoute exampleCompile newRouter ''GET'' ''/user/:id(^[0-9]+$)'' (Some 1))"

definition routerDigits :: "(nat, regex) router" where
  "routerDigits = fst (addRoute exampleCompile newRouter ''GET'' ''/a/:id(^[0-9]+$)'' (Some 1))"

definition routerAnyText :: "(nat, regex) router" where
  "routerAnyText = fst (addRoute exampleCompile routerUserId ''GET'' ''/user/:id/:rest(.*)'' (Some 2))"

definition routerBroken :: "(nat, regex) router" where
  "routerBroken = fst (addRoute exampleCompile newRouter ''GET'' ''/a//b'' (Some 1))"

definition routerId :: "(nat, regex) router" where
  "routerId = fst (addRoute exampleCompile newRouter ''GET'' ''/:id'' (Some 1))"

definition routerUncompiled :: "(nat, regex) router" where
  "routerUncompiled = fst (addRoute exampleCompile newRouter ''GET'' ''/:id([)'' (Some 1))"

text \<open>The router after registering \<open>/a\<close> with the nil handler.\<close>

definition routerNil :: "(nat, regex) router" where
  "routerNil = fst (addRoute exampleCompile newRouter ''GET'' ''/a'' None)"

definition routerAUncompiled :: "(nat, regex) router" where
  "routerAUncompiled = fst (addRoute exampleCompile routerA ''GET'' ''/a/:id([)'' (Some 2))"

section \<open>Facts about the model\<close>

subsection \<open>Field assignments\<close>

lemma sel_set_children [simp]:
  "typ' (set_children n v) = typ' n" "path (set_children n v) = path n"
  "children (set_children n v) = v" "handler (set_children n v) = handler n"
  "starChild (set_children n v) = starChild n" "paramChild (set_children n v) = paramChild n"
  "paramName (set_children n v) = paramName n" "regChild (set_children n v) = regChild n"
  "regExpr (set_children n v) = regExpr n"
  by (cases n; simp)+

lemma sel_set_handler [simp]:
  "typ' (set_handler n v) = typ' n" "path (set_handler n v) = path n"
  "children (set_handler n v) = children n" "handler (set_handler n v) = v"
  "starChild (set_handler n v) = starChild n" "paramChild (set_handler n v) = paramChild n"
  "paramName (set_handler n v) = paramName n" "regChild (set_handler n v) = regChild n"
  "regExpr (set_handler n v) = regExpr n"
  by (cases n; simp)+

lemma sel_set_starChild [simp]:
  "typ' (set_starChild n v) = typ' n" "path (set_starChild n v) = path n"
  "children (set_starChild n v) = children n" "handler (set_starChild n v) = handler n"
  "starChild (set_starChild n v) = v" "paramChild (set_starChild n v) = paramChild n"
  "paramName (set_starChild n v) = paramName n" "regChild (set_starChild n v) = regChild n"
  "regExpr (set_starChild n v) = regExpr n"
  by (cases n; simp)+

lemma sel_set_paramChild [simp]:
  "typ' (set_paramChild n v) = typ' n" "path (set_paramChild n v) = path n"
  "children (set_paramChild n v) = children n" "handler (set_paramChild n v) = handler n"
  "starChild (set_paramChild n v) = starChild n" "paramChild (set_paramChild n v) = v"
  "paramName (set_paramChild n v) = paramName n" "regChild (set_paramChild n v) = regChild n"
  "regExpr (set_paramChild n v) = regExpr n"
  by (cases n; simp)+

lemma sel_set_regChild [simp]:
  "typ' (set_regChild n v) = typ' n" "path (set_regChild n v) = path n"
  "children (set_regChild n v) = children n" "handler (set_regChild n v) = handler n"
  "starChild (set_regChild n v) = starChild n" "paramChild (set_regChild n v) = paramChild n"
  "paramName (set_regChild n v) = paramName n" "regChild (set_regChild n v) = v"
  "regExpr (set_regChild n v) = regExpr n"
  by (cases n; simp)+

lemma set_same [simp]:
  "set_children n (children n) = n" "set_handler n (handler n) = n"
  "set_starChild n (starChild n) = n" "set_paramChild n (paramChild n) = n"
  "set_regChild n (regChild n) = n"
  by (cases n; simp)+

lemma set_twice [simp]:
  "set_children (set_children n cs) cs' = set_children n cs'"
  "set_handler (set_handler n h) h' = set_handler n h'"
  "set_starChild (set_starChild n v) w = set_starChild n w"
  "set_paramChild (set_paramChild n v) w = set_paramChild n w"
  "set_regChild (set_regChild n v) w = set_regChild n w"
  by (cases n; simp)+

lemma childrenList_set [simp]:
  "childrenList (set_children n (Some cs)) = cs"
  "childrenList (set_handler n h) = childrenList n"
  "childrenList (set_starChild n v) = childrenList n"
  "childrenList (set_paramChild n v) = childrenList n"
  "childrenList (set_regChild n v) = childrenList n"
  by (simp_all add: childrenList_def)

lemma children_of_lookup:
  "map_of (childrenList n) k = Some c \<Longrightarrow> children n = Some (childrenList n)"
  by (cases "children n") (simp_all add: childrenList_def)

subsection \<open>The shape of a regular-expression segment\<close>

lemma isRegPath_iff:
  "isRegPath p \<longleftrightarrow>
     (\<exists>name expr. p = CHR '':'' # name @ CHR ''('' # expr @ '')'' \<and> name \<noteq> [] \<and> expr \<noteq> [] \<and>
        CHR 0x0A \<notin> set name \<and> CHR 0x0A \<notin> set expr)"
proof
  assume "isRegPath p"
  then obtain rest where p: "p = CHR '':'' # rest" and rest: "rest \<noteq> []"
    and lst: "last rest = CHR '')''" and nl: "CHR 0x0A \<notin> set (butlast rest)"
    and par: "CHR ''('' \<in> set (butlast (tl (butlast rest)))"
    by (auto simp: isRegPath_def split: list.splits)
  define mid where "mid = butlast rest"
  from rest lst have r: "rest = mid @ '')''"
    unfolding mid_def by (metis append_butlast_last_id)
  from par obtain a b where ab: "butlast (tl mid) = a @ CHR ''('' # b"
    unfolding mid_def by (auto dest: split_list)
  then have t: "tl mid \<noteq> []" by auto
  then have m: "mid \<noteq> []" by auto
  from t ab have tm: "tl mid = a @ CHR ''('' # b @ [last (tl mid)]"
    by (metis append_butlast_last_id append.assoc append_Cons)
  from m have "mid = hd mid # tl mid" by simp
  with tm have mid_eq: "mid = (hd mid # a) @ CHR ''('' # (b @ [last (tl mid)])" by simp
  have "CHR 0x0A \<notin> set mid" using nl by (simp add: mid_def)
  then have "CHR 0x0A \<notin> set ((hd mid # a) @ CHR ''('' # (b @ [last (tl mid)]))"
    using mid_eq by metis
  then have "CHR 0x0A \<notin> set (hd mid # a)" "CHR 0x0A \<notin> set (b @ [last (tl mid)])"
    by simp_all
  moreover have "p = CHR '':'' # (hd mid # a) @ CHR ''('' # (b @ [last (tl mid)]) @ '')''"
    using p r mid_eq by simp
  ultimately show "\<exists>name expr. p = CHR '':'' # name @ CHR ''('' # expr @ '')'' \<and> name \<noteq> [] \<and>
      expr \<noteq> [] \<and> CHR 0x0A \<notin> set name \<and> CHR 0x0A \<notin> set expr"
    by blast
next
  assume "\<exists>name expr. p = CHR '':'' # name @ CHR ''('' # expr @ '')'' \<and> name \<noteq> [] \<and> expr \<noteq> [] \<and>
        CHR 0x0A \<notin> set name \<and> CHR 0x0A \<notin> set expr"
  then obtain name expr where p: "p = CHR '':'' # name @ CHR ''('' # expr @ '')''"
    and ne: "name \<noteq> []" "expr \<noteq> []" and nl: "CHR 0x0A \<notin> set name" "CHR 0x0A \<notin> set expr"
    by blast
  have b1: "butlast (name @ CHR ''('' # expr @ '')'') = name @ CHR ''('' # expr"
    by (simp add: butlast_append)
  have b2: "butlast (tl name @ CHR ''('' # expr) = tl name @ CHR ''('' # butlast expr"
    using ne by (simp add: butlast_append)
  show "isRegPath p"
    unfolding isRegPath_def p using ne nl by (simp add: b1 b2 del: butlast.simps)
qed


lemma isRegPath_hd: "isRegPath p \<Longrightarrow> p \<noteq> [] \<and> hd p = CHR '':'' \<and> p \<noteq> ''*''"
  by (auto simp: isRegPath_def split: list.splits)

lemma takeWhile_stop_le: "\<not> P y \<Longrightarrow> length (takeWhile P (xs @ y # ys)) \<le> length xs"
  by (induction xs) auto

lemma isRegPath_index:
  assumes "isRegPath p"
  shows "CHR ''('' \<in> set p"
    and "1 \<le> length (takeWhile (\<lambda>x. x \<noteq> CHR ''('') p)"
    and "length (takeWhile (\<lambda>x. x \<noteq> CHR ''('') p) + 2 \<le> length p"
proof -
  from assms obtain name expr where p: "p = CHR '':'' # name @ CHR ''('' # expr @ '')''"
    and ne: "name \<noteq> []" "expr \<noteq> []"
    unfolding isRegPath_iff by blast
  show "CHR ''('' \<in> set p" by (simp add: p)
  show "1 \<le> length (takeWhile (\<lambda>x. x \<noteq> CHR ''('') p)" by (simp add: p)
  have "length (takeWhile (\<lambda>x. x \<noteq> CHR ''('') (name @ CHR ''('' # expr @ '')'')) \<le> length name"
    by (rule takeWhile_stop_le) simp
  then show "length (takeWhile (\<lambda>x. x \<noteq> CHR ''('') p) + 2 \<le> length p"
    using ne by (simp add: p)
qed

lemma slice_regName:
  assumes "isRegPath p"
  shows "slice p 1 (strIndex p CHR ''('') = Inr (regName p)"
proof -
  let ?k = "length (takeWhile (\<lambda>x. x \<noteq> CHR ''('') p)"
  note i = isRegPath_index [OF assms]
  from assms obtain rest where p: "p = CHR '':'' # rest"
    by (auto simp: isRegPath_def split: list.splits)
  have k: "?k = Suc (length (takeWhile (\<lambda>x. x \<noteq> CHR ''('') rest))" by (simp add: p)
  have "take (?k - 1) (drop 1 p) = takeWhile (\<lambda>x. x \<noteq> CHR ''('') rest"
    unfolding k by (simp add: p takeWhile_eq_take [symmetric])
  moreover have "nat (int ?k - 1) = ?k - 1" by simp
  ultimately show ?thesis
    using i by (simp add: slice_def strIndex_def regName_def p del: takeWhile.simps)
qed

lemma slice_regExprText:
  assumes "isRegPath p"
  shows "slice p (strIndex p CHR ''('' + 1) (int (length p) - 1) = Inr (regExprText p)"
proof -
  let ?k = "length (takeWhile (\<lambda>x. x \<noteq> CHR ''('') p)"
  note i = isRegPath_index [OF assms]
  have d: "drop (Suc ?k) p = tl (dropWhile (\<lambda>x. x \<noteq> CHR ''('') p)"
    by (simp add: dropWhile_eq_drop drop_Suc tl_drop)
  have "take (length p - 1 - Suc ?k) (drop (Suc ?k) p) = butlast (drop (Suc ?k) p)"
    by (simp add: butlast_conv_take)
  moreover have "nat (int (length p) - 1 - (int ?k + 1)) = length p - 1 - Suc ?k" by simp
  moreover have "nat (int ?k + 1) = Suc ?k" by simp
  ultimately show ?thesis
    using i unfolding slice_def strIndex_def regExprText_def d [symmetric] by simp
qed

lemma regName_decomp:
  "CHR ''('' \<notin> set name \<Longrightarrow> regName (CHR '':'' # name @ CHR ''('' # expr @ '')'') = name"
  by (auto simp: regName_def takeWhile_append2 takeWhile_tail)

lemma regExprText_decomp:
  "CHR ''('' \<notin> set name \<Longrightarrow> regExprText (CHR '':'' # name @ CHR ''('' # expr @ '')'') = expr"
proof -
  assume a: "CHR ''('' \<notin> set name"
  then have "dropWhile (\<lambda>x. x \<noteq> CHR ''('') (name @ CHR ''('' # expr @ '')'') = CHR ''('' # expr @ '')''"
    by (subst dropWhile_append2) auto
  then show ?thesis by (simp add: regExprText_def butlast_append)
qed

subsection \<open>The branches of childOrCreate\<close>

text \<open>Each branch of \<open>childOrCreate\<close> as an equation, under the test that selects it.\<close>

lemma childOrCreate_star:
  "childOrCreate cmp n ''*'' =
     (case starChild n of
        None \<Rightarrow>
          if regChild n \<noteq> None then Inl ErrStarHasReg
          else if paramChild n \<noteq> None then Inl ErrStarHasParam
          else Inr (set_starChild n (Some (newNode ''*'' nodeTypeAny)), newNode ''*'' nodeTypeAny)
      | Some c \<Rightarrow> Inr (n, c))"
  by (auto simp: childOrCreate_def Let_def split: option.splits)

lemma childOrCreate_reg:
  assumes "isRegPath p"
  shows "childOrCreate cmp n p =
     (if paramChild n \<noteq> None then Inl (ErrRegHasParam p)
      else if starChild n \<noteq> None then Inl (ErrRegHasStar p)
      else
        (case regChild n of
           Some c \<Rightarrow> if path c \<noteq> p then Inl (ErrRegConflict (path c) p) else Inr (n, c)
         | None \<Rightarrow>
             Inr (set_regChild n
                    (Some (Node nodeTypeReg p None None None None (regName p) None (cmp (regExprText p)))),
                  Node nodeTypeReg p None None None None (regName p) None (cmp (regExprText p)))))"
proof -
  from isRegPath_hd [OF assms] obtain c0 rest where p: "p = c0 # rest" "c0 = CHR '':''" "p \<noteq> ''*''"
    by (cases p) auto
  show ?thesis
    using assms p(3) slice_regName [OF assms] slice_regExprText [OF assms]
    unfolding childOrCreate_def
    by (simp add: p(1,2) Let_def split: option.splits)
qed

lemma childOrCreate_param:
  assumes "isParamSeg p"
  shows "childOrCreate cmp n p =
     (if regChild n \<noteq> None then Inl (ErrParamHasReg p)
      else if starChild n \<noteq> None then Inl (ErrParamHasStar p)
      else
        (case paramChild n of
           Some c \<Rightarrow> if path c \<noteq> p then Inl (ErrParamConflict (path c) p) else Inr (n, c)
         | None \<Rightarrow>
             Inr (set_paramChild n (Some (Node nodeTypeParam p None None None None (tl p) None None)),
                  Node nodeTypeParam p None None None None (tl p) None None)))"
proof -
  from assms obtain rest where p: "p = CHR '':'' # rest" and nr: "\<not> isRegPath p"
    by (cases p) (auto simp: isParamSeg_def)
  have "p \<noteq> ''*''" by (simp add: p)
  moreover have "slice p 1 (int (length p)) = Inr (tl p)"
    by (simp add: slice_def p)
  ultimately show ?thesis
    using nr unfolding childOrCreate_def
    by (simp add: p Let_def split: option.splits)
qed

lemma childOrCreate_static:
  assumes "isStaticSeg p"
  shows "childOrCreate cmp n p =
     (case map_of (childrenList n) p of
        Some target \<Rightarrow> Inr (set_children n (Some (childrenList n)), target)
      | None \<Rightarrow>
          Inr (set_children n (Some (AList.update p (newNode p nodeTypeStatic) (childrenList n))),
               newNode p nodeTypeStatic))"
proof -
  from assms obtain c0 rest where p: "p = c0 # rest" "c0 \<noteq> CHR '':''" "p \<noteq> ''*''"
    by (cases p) (auto simp: isStaticSeg_def)
  have "childOrCreate cmp n p =
      (let cs = childrenList n in
                case map_of cs p of
                  Some target \<Rightarrow> Inr (set_children n (Some cs), target)
                | None \<Rightarrow>
                    (let target = newNode p nodeTypeStatic
                     in Inr (set_children n (Some (AList.update p target cs)), target)))"
    unfolding childOrCreate_def
    by (simp only: p(3) if_False) (simp add: p(1,2))
  then show ?thesis by (simp add: Let_def split: option.splits)
qed

lemma seg_cases:
  assumes "p \<noteq> []"
  obtains (star) "p = ''*''" | (reg) "isRegPath p" | (param) "isParamSeg p" | (static) "isStaticSeg p"
  using assms unfolding isParamSeg_def isStaticSeg_def by blast

lemma seg_disjoint:
  "isRegPath p \<Longrightarrow> \<not> isParamSeg p \<and> \<not> isStaticSeg p \<and> p \<noteq> ''*''"
  "isParamSeg p \<Longrightarrow> \<not> isRegPath p \<and> \<not> isStaticSeg p \<and> p \<noteq> ''*''"
  "isStaticSeg p \<Longrightarrow> \<not> isRegPath p \<and> \<not> isParamSeg p \<and> p \<noteq> ''*''"
  "\<not> isRegPath ''*''" "\<not> isParamSeg ''*''" "\<not> isStaticSeg ''*''"
  by (auto simp: isParamSeg_def isStaticSeg_def isRegPath_def split: list.splits)

subsection \<open>The slot that childOrCreate returns\<close>

lemma childOrCreate_nonempty: "childOrCreate cmp n p = Inr x \<Longrightarrow> p \<noteq> []"
  by (auto simp: childOrCreate_def)

lemma childSlot_simps:
  "childSlot n ''*'' = starChild n"
  "isRegPath p \<Longrightarrow> childSlot n p = regChild n"
  "isParamSeg p \<Longrightarrow> childSlot n p = paramChild n"
  "isStaticSeg p \<Longrightarrow> childSlot n p = map_of (childrenList n) p"
  by (auto simp: childSlot_def isParamSeg_def isStaticSeg_def dest: isRegPath_hd)

lemma setChild_simps:
  "setChild n ''*'' c = set_starChild n (Some c)"
  "isRegPath p \<Longrightarrow> setChild n p c = set_regChild n (Some c)"
  "isParamSeg p \<Longrightarrow> setChild n p c = set_paramChild n (Some c)"
  "isStaticSeg p \<Longrightarrow> setChild n p c = set_children n (Some (AList.update p c (childrenList n)))"
  by (auto simp: setChild_def isParamSeg_def isStaticSeg_def dest: isRegPath_hd)

lemma childOrCreate_slot:
  assumes "childOrCreate cmp n p = Inr (n', c)"
  shows "childSlot n' p = Some c"
proof -
  from assms have "p \<noteq> []" by (rule childOrCreate_nonempty)
  then show ?thesis
  proof (cases p rule: seg_cases)
    case star
    with assms show ?thesis
      by (auto simp: childOrCreate_star childSlot_simps split: option.splits if_splits)
  next
    case reg
    with assms show ?thesis
      by (auto simp: childOrCreate_reg childSlot_simps split: option.splits if_splits)
  next
    case param
    with assms show ?thesis
      by (auto simp: childOrCreate_param childSlot_simps split: option.splits if_splits)
  next
    case static
    with assms show ?thesis
      by (auto simp: childOrCreate_static childSlot_simps update_conv' split: option.splits if_splits)
  qed
qed

lemma childOrCreate_existing:
  assumes "childOrCreate cmp n p = Inr (n', c)" and "childSlot n p = Some c0"
  shows "c = c0 \<and> childSlot n' = childSlot n"
proof -
  from assms have "p \<noteq> []" by (auto dest: childOrCreate_nonempty)
  then show ?thesis
  proof (cases p rule: seg_cases)
    case star
    with assms show ?thesis
      by (auto simp: childOrCreate_star childSlot_simps split: option.splits if_splits)
  next
    case reg
    with assms show ?thesis
      by (auto simp: childOrCreate_reg childSlot_simps split: option.splits if_splits)
  next
    case param
    with assms show ?thesis
      by (auto simp: childOrCreate_param childSlot_simps split: option.splits if_splits)
  next
    case static
    with assms(2) have "map_of (childrenList n) p = Some c0" by (simp add: childSlot_simps)
    with assms(1) static have "c = c0" "n' = set_children n (Some (childrenList n))"
      by (auto simp: childOrCreate_static)
    then show ?thesis by (simp add: childSlot_def fun_eq_iff)
  qed
qed

lemma childOrCreate_fields:
  assumes "childOrCreate cmp n p = Inr (n', c)"
  shows "typ' n' = typ' n" "path n' = path n" "handler n' = handler n"
    "paramName n' = paramName n" "regExpr n' = regExpr n"
proof -
  from assms have "p \<noteq> []" by (rule childOrCreate_nonempty)
  then have "typ' n' = typ' n \<and> path n' = path n \<and> handler n' = handler n \<and>
    paramName n' = paramName n \<and> regExpr n' = regExpr n"
  proof (cases p rule: seg_cases)
    case star
    with assms show ?thesis
      by (auto simp: childOrCreate_star split: option.splits if_splits)
  next
    case reg
    with assms show ?thesis
      by (auto simp: childOrCreate_reg split: option.splits if_splits)
  next
    case param
    with assms show ?thesis
      by (auto simp: childOrCreate_param split: option.splits if_splits)
  next
    case static
    with assms show ?thesis
      by (auto simp: childOrCreate_static split: option.splits if_splits)
  qed
  then show "typ' n' = typ' n" "path n' = path n" "handler n' = handler n"
    "paramName n' = paramName n" "regExpr n' = regExpr n" by simp_all
qed

lemma childOrCreate_path:
  assumes "childOrCreate cmp n p = Inr (n', c)" and "isRegPath p \<or> isParamSeg p"
  shows "path c = p"
  using assms
  by (auto simp: childOrCreate_reg childOrCreate_param split: option.splits if_splits)

lemma setChild_fields [simp]:
  "typ' (setChild n p c) = typ' n" "path (setChild n p c) = path n"
  "handler (setChild n p c) = handler n" "paramName (setChild n p c) = paramName n"
  "regExpr (setChild n p c) = regExpr n"
  by (simp_all add: setChild_def)

lemma childSlot_setChild [simp]: "childSlot (setChild n p c) p = Some c"
  by (simp add: childSlot_def setChild_def update_conv')

lemma setChild_same:
  assumes "childSlot n p = Some c"
  shows "setChild n p c = n"
proof -
  have "map_of (childrenList n) p = Some c \<Longrightarrow>
      set_children n (Some (AList.update p c (childrenList n))) = n"
    using children_of_lookup [of n p c] by (simp add: update_triv) (metis set_same(1))
  with assms show ?thesis
    by (auto simp: childSlot_def setChild_def split: if_splits) (metis set_same)+
qed

lemma setChild_twice [simp]: "setChild (setChild n p c) p c' = setChild n p c'"
  by (simp add: setChild_def)

lemma childOrCreate_again:
  assumes "childOrCreate cmp n p = Inr (n', c)" and "path c' = path c"
  shows "childOrCreate cmp (setChild n' p c') p = Inr (setChild n' p c', c')"
proof -
  from assms have ne: "p \<noteq> []" by (auto dest: childOrCreate_nonempty)
  then show ?thesis
  proof (cases p rule: seg_cases)
    case star
    then show ?thesis by (simp add: childOrCreate_star setChild_simps)
  next
    case reg
    with assms childOrCreate_path [OF assms(1)] show ?thesis
      by (auto simp: childOrCreate_reg setChild_simps split: option.splits if_splits)
  next
    case param
    with assms childOrCreate_path [OF assms(1)] show ?thesis
      by (auto simp: childOrCreate_param setChild_simps split: option.splits if_splits)
  next
    case static
    then show ?thesis
      by (simp add: childOrCreate_static setChild_simps update_conv')
  qed
qed

subsection \<open>The walk of addRoute\<close>

lemma addSegs_fields:
  assumes "addSegs cmp n ss pth h = (n1, e)"
  shows "typ' n1 = typ' n" "path n1 = path n" "paramName n1 = paramName n" "regExpr n1 = regExpr n"
proof -
  have "typ' n1 = typ' n \<and> path n1 = path n \<and> paramName n1 = paramName n \<and> regExpr n1 = regExpr n"
    using assms
    by (cases ss) (auto split: if_splits sum.splits prod.splits dest: childOrCreate_fields)
  then show "typ' n1 = typ' n" "path n1 = path n" "paramName n1 = paramName n" "regExpr n1 = regExpr n"
    by simp_all
qed

lemma addSegs_again:
  "addSegs cmp n ss pth (Some h) = (n1, None) \<Longrightarrow>
   addSegs cmp n1 ss pth h' = (n1, Some (ErrRouteConflict pth))"
proof (induction ss arbitrary: n n1)
  case Nil
  then show ?case by (auto split: if_splits)
next
  case (Cons s ss)
  from Cons.prems obtain n' c c' where s: "s \<noteq> []"
    and coc: "childOrCreate cmp n s = Inr (n', c)"
    and rec: "addSegs cmp c ss pth (Some h) = (c', None)"
    and n1: "n1 = setChild n' s c'"
    by (auto split: if_splits sum.splits prod.splits)
  from addSegs_fields(2) [OF rec] have "path c' = path c" .
  from childOrCreate_again [OF coc this]
  have "childOrCreate cmp n1 s = Inr (n1, c')" by (simp add: n1)
  moreover from Cons.IH [OF rec]
  have "addSegs cmp c' ss pth h' = (c', Some (ErrRouteConflict pth))" .
  ultimately show ?case using s by (simp add: n1)
qed

lemma addSegs_nodeAt:
  "addSegs cmp n ss pth h = (n1, None) \<Longrightarrow> \<exists>nd. nodeAt n1 ss = Some nd \<and> handler nd = h"
proof (induction ss arbitrary: n n1)
  case Nil
  then show ?case by (auto split: if_splits)
next
  case (Cons s ss)
  from Cons.prems obtain n' c c' where s: "s \<noteq> []"
    and coc: "childOrCreate cmp n s = Inr (n', c)"
    and rec: "addSegs cmp c ss pth h = (c', None)"
    and n1: "n1 = setChild n' s c'"
    by (auto split: if_splits sum.splits prod.splits)
  from Cons.IH [OF rec] show ?case by (simp add: n1)
qed

lemma childSlot_set_handler [simp]: "childSlot (set_handler n h) p = childSlot n p"
  by (simp add: childSlot_def)

lemma nodeAt_set_handler: "ss \<noteq> [] \<Longrightarrow> nodeAt (set_handler n h) ss = nodeAt n ss"
  by (cases ss) simp_all

lemma childOrCreate_keeps:
  assumes "childOrCreate cmp n q = Inr (n', c)" and "childSlot n s = Some c0"
  shows "childSlot n' s = Some c0"
proof -
  from assms have "q \<noteq> []" by (auto dest: childOrCreate_nonempty)
  then show ?thesis
  proof (cases q rule: seg_cases)
    case star
    with assms show ?thesis
      by (auto simp: childOrCreate_star childSlot_def split: option.splits if_splits)
  next
    case reg
    with assms show ?thesis
      by (auto simp: childOrCreate_reg childSlot_def split: option.splits if_splits)
  next
    case param
    with assms show ?thesis
      by (auto simp: childOrCreate_param childSlot_def split: option.splits if_splits)
  next
    case static
    with assms show ?thesis
      by (auto simp: childOrCreate_static childSlot_def update_conv' split: option.splits if_splits)
  qed
qed

lemma childSlot_setChild_other:
  "childSlot (setChild n q c) s = childSlot n s \<or>
   (childSlot (setChild n q c) s = Some c \<and> childSlot n s = childSlot n q)"
  by (auto simp: childSlot_def setChild_def update_conv')

lemma addSegs_keeps_handler:
  "nodeAt n ss = Some nd \<Longrightarrow> handler nd = Some g \<Longrightarrow>
   \<exists>nd'. nodeAt (fst (addSegs cmp n qs pth h)) ss = Some nd' \<and> handler nd' = Some g"
proof (induction qs arbitrary: n ss nd)
  case Nil
  then show ?case by (cases ss) auto
next
  case (Cons q qs)
  note IH = Cons.IH and prems = Cons.prems
  show ?case
  proof (cases "q = []")
    case True
    with prems show ?thesis by simp
  next
    case q: False
    show ?thesis
    proof (cases "childOrCreate cmp n q")
      case (Inl e)
      with prems q show ?thesis by simp
    next
      case (Inr x)
      then obtain n' c where coc: "childOrCreate cmp n q = Inr (n', c)" by (cases x) auto
      obtain c' e where rec: "addSegs cmp c qs pth h = (c', e)" by (cases "addSegs cmp c qs pth h")
      have res: "fst (addSegs cmp n (q # qs) pth h) = setChild n' q c'"
        using q coc rec by simp
      show ?thesis
        unfolding res
      proof (cases ss)
        case Nil
        with prems childOrCreate_fields(3) [OF coc] show "\<exists>nd'. nodeAt (setChild n' q c') ss = Some nd' \<and> handler nd' = Some g"
          by simp
      next
        case (Cons s ss')
        with prems obtain c0 where c0: "childSlot n s = Some c0" "nodeAt c0 ss' = Some nd"
          by (auto split: option.splits)
        from childOrCreate_keeps [OF coc c0(1)] have k: "childSlot n' s = Some c0" .
        from childSlot_setChild_other [of n' q c' s]
        show "\<exists>nd'. nodeAt (setChild n' q c') ss = Some nd' \<and> handler nd' = Some g"
        proof
          assume "childSlot (setChild n' q c') s = childSlot n' s"
          with k c0(2) prems(2) show ?thesis by (simp add: Cons)
        next
          assume a: "childSlot (setChild n' q c') s = Some c' \<and> childSlot n' s = childSlot n' q"
          with k childOrCreate_slot [OF coc] have "c0 = c" by simp
          with IH [of c ss' nd] c0(2) prems(2) rec
          obtain nd' where "nodeAt c' ss' = Some nd'" "handler nd' = Some g" by auto
          with a show ?thesis by (simp add: Cons)
        qed
      qed
    qed
  qed
qed

lemma trees_upd_same: "trees r m = Some x \<Longrightarrow> r\<lparr>trees := (trees r)(m \<mapsto> x)\<rparr> = r"
  by (simp add: map_upd_triv)

lemma addRoute_success:
  assumes "addRoute cmp r m p h = (r1, None)"
  obtains root root1 where "p \<noteq> []" "hd p = CHR ''/''" "p = ''/'' \<or> last p \<noteq> CHR ''/''"
    "root = (case trees r m of Some n \<Rightarrow> n
             | None \<Rightarrow> Node nodeTypeStatic ''/'' None None None None [] None None)"
    "addSegs cmp root (segsOf p) p h = (root1, None)"
    "r1 = r\<lparr>trees := (trees r)(m \<mapsto> root1)\<rparr>"
proof -
  define root where "root = (case trees r m of Some n \<Rightarrow> n
             | None \<Rightarrow> Node nodeTypeStatic ''/'' None None None None [] None None)"
  from assms have p: "p \<noteq> []" "hd p = CHR ''/''" "p = ''/'' \<or> last p \<noteq> CHR ''/''"
    by (auto simp: addRoute_def split: if_splits)
  from assms p have "\<exists>root1. addSegs cmp root (segsOf p) p h = (root1, None) \<and>
      r1 = r\<lparr>trees := (trees r)(m \<mapsto> root1)\<rparr>"
    unfolding addRoute_def root_def [symmetric] segsOf_def
    by (auto simp: Let_def split: if_splits prod.splits)
  with p root_def that show thesis by blast
qed

section \<open>Registering a path twice\<close>

text \<open>
  Claim C2, amended. After a successful \<open>addRoute\<close> of a path (the root path included)
  for a method with a handler that is not nil, a second \<open>addRoute\<close> of the same path
  for the same method panics with the route-conflict message and leaves the router as it
  was, whatever handler it carries; and no call of \<open>addRoute\<close>, for any method and
  path, changes a handler that is already stored at the end of some path. A successful
  \<open>addRoute\<close> with the nil handler stores no handler at the end of its path.
\<close>

theorem addRoute_same_path_conflict:
  "(addRoute cmp r m p (Some h) = (r1, None) \<longrightarrow>
      handlerAt r1 m p = Some h \<and>
      addRoute cmp r1 m p h' = (r1, Some (ErrRouteConflict p)) \<and>
      isConflictError (ErrRouteConflict p)) \<and>
   (handlerAt r m' q = Some g \<longrightarrow> handlerAt (fst (addRoute cmp r m p h')) m' q = Some g) \<and>
   (addRoute cmp r m p None = (r1, None) \<longrightarrow> handlerAt r1 m p = None)"
proof (intro conjI impI)
  assume a: "addRoute cmp r m p None = (r1, None)"
  then obtain root root1 where seg: "addSegs cmp root (segsOf p) p None = (root1, None)"
    and r1: "r1 = r\<lparr>trees := (trees r)(m \<mapsto> root1)\<rparr>"
    by (rule addRoute_success)
  from addSegs_nodeAt [OF seg] show "handlerAt r1 m p = None"
    by (auto simp: handlerAt_def r1)
next
  assume a: "addRoute cmp r m p (Some h) = (r1, None)"
  then obtain root root1 where p: "p \<noteq> []" "hd p = CHR ''/''" "p = ''/'' \<or> last p \<noteq> CHR ''/''"
    and seg: "addSegs cmp root (segsOf p) p (Some h) = (root1, None)"
    and r1: "r1 = r\<lparr>trees := (trees r)(m \<mapsto> root1)\<rparr>"
    by (rule addRoute_success)
  from addSegs_nodeAt [OF seg] show "handlerAt r1 m p = Some h"
    by (auto simp: handlerAt_def r1)
  have t: "trees r1 m = Some root1" by (simp add: r1)
  from addSegs_again [OF seg] have ag: "addSegs cmp root1 (segsOf p) p h' = (root1, Some (ErrRouteConflict p))" .
  show "addRoute cmp r1 m p h' = (r1, Some (ErrRouteConflict p))"
  proof (cases "p = ''/''")
    case True
    with ag show ?thesis
      by (auto simp: addRoute_def t segsOf_def trees_upd_same [OF t] split: if_splits)
  next
    case False
    with ag p show ?thesis
      by (simp add: addRoute_def t segsOf_def trees_upd_same [OF t])
  qed
  show "isConflictError (ErrRouteConflict p)" by simp
next
  assume a: "handlerAt r m' q = Some g"
  then obtain root0 nd where t: "trees r m' = Some root0" and nd: "nodeAt root0 (segsOf q) = Some nd"
    and g: "handler nd = Some g"
    by (auto simp: handlerAt_def split: option.splits)
  show "handlerAt (fst (addRoute cmp r m p h')) m' q = Some g"
  proof (cases "m' = m")
    case False
    with a show ?thesis
      by (auto simp: addRoute_def handlerAt_def Let_def split: prod.splits)
  next
    case True
    from addSegs_keeps_handler [OF nd g, of cmp "segsOf p" p h']
    obtain nd' where k: "nodeAt (fst (addSegs cmp root0 (segsOf p) p h')) (segsOf q) = Some nd'"
      "handler nd' = Some g" by blast
    show ?thesis
    proof (cases "p = ''/''")
      case p: True
      with k t True a show ?thesis
        by (auto simp: addRoute_def handlerAt_def segsOf_def Let_def split: if_splits)
    next
      case p: False
      with k t True a show ?thesis
        by (auto simp: addRoute_def handlerAt_def segsOf_def Let_def split: prod.splits)
    qed
  qed
qed

theorem addRoute_same_path_conflict_witness:
  "addRoute exampleCompile routerA ''GET'' ''/user/home'' (Some 1) = (routerHome, None) \<and>
   handlerAt routerA ''GET'' ''/a'' = Some 0 \<and>
   handlerAt routerHome ''GET'' ''/user/home'' = Some 1 \<and>
   addRoute exampleCompile routerHome ''GET'' ''/user/home'' (Some 2)
     = (routerHome, Some (ErrRouteConflict ''/user/home'')) \<and>
   handlerAt (fst (addRoute exampleCompile routerA ''GET'' ''/user/home'' (Some 2))) ''GET'' ''/a'' = Some 0"
proof -
  have "snd (addRoute exampleCompile routerA ''GET'' ''/user/home'' (Some 1)) = None"
    by code_simp
  then have h1: "addRoute exampleCompile routerA ''GET'' ''/user/home'' (Some 1) = (routerHome, None)"
    by (simp add: routerHome_def prod_eq_iff)
  have h2: "handlerAt routerA ''GET'' ''/a'' = Some 0"
    by code_simp
  from addRoute_same_path_conflict
    [of exampleCompile routerA "''GET''" "''/user/home''" 1 routerHome "Some 2" "''GET''" "''/a''" 0]
    h1 h2
  show ?thesis by simp
qed

text \<open>The claim as it is written fails for the nil handler, which \<open>addRoute\<close> accepts:
  after \<open>/a\<close> is registered with it, the node of \<open>a\<close> still has no handler, and a
  second registration of \<open>/a\<close> succeeds.\<close>

theorem addRoute_same_path_conflict_counterexample:
  "snd (addRoute exampleCompile newRouter ''GET'' ''/a'' (None :: nat option)) = None \<and>
   handlerAt routerNil ''GET'' ''/a'' = None \<and>
   snd (addRoute exampleCompile routerNil ''GET'' ''/a'' (Some 1)) = None"
  by code_simp

section \<open>The root path\<close>

text \<open>
  Claim C8. \<open>addRoute\<close> of the path \<open>/\<close> stores the handler in the root node of the
  method and touches nothing else: if the method has a tree, either its root already has a
  handler and the call panics with the route-conflict message, leaving the router as it
  was, or the new root is the old one with the handler field assigned; if the method has no
  tree, the new root is a node of path \<open>/\<close> with the handler and without any child.
\<close>

theorem addRoute_root:
  "addRoute cmp r m ''/'' h =
     (case trees r m of
        None \<Rightarrow>
          (r\<lparr>trees := (trees r)(m \<mapsto> Node nodeTypeStatic ''/'' None h None None [] None None)\<rparr>, None)
      | Some root \<Rightarrow>
          (case handler root of
             Some g \<Rightarrow> (r, Some (ErrRouteConflict ''/''))
           | None \<Rightarrow> (r\<lparr>trees := (trees r)(m \<mapsto> set_handler root h)\<rparr>, None))) \<and>
   isConflictError (ErrRouteConflict ''/'') \<and>
   children (set_handler root h) = children root \<and>
   starChild (set_handler root h) = starChild root \<and>
   paramChild (set_handler root h) = paramChild root \<and>
   regChild (set_handler root h) = regChild root"
  by (auto simp: addRoute_def trees_upd_same split: option.splits)

theorem addRoute_root_witness:
  "addRoute exampleCompile (newRouter :: (nat, regex) router) ''GET'' ''/'' (Some 7) =
     (newRouter\<lparr>trees := (trees newRouter)(''GET'' \<mapsto> Node nodeTypeStatic ''/'' None (Some 7) None None [] None None)\<rparr>, None) \<and>
   addRoute exampleCompile routerA ''GET'' ''/'' (Some 7) =
     (routerA\<lparr>trees := (trees routerA)(''GET'' \<mapsto>
        Node nodeTypeStatic ''/'' (Some [(''a'', Node nodeTypeStatic ''a'' None (Some 0) None None [] None None)])
          (Some 7) None None [] None None)\<rparr>, None) \<and>
   addRoute exampleCompile routerRoot ''GET'' ''/'' (Some 8) = (routerRoot, Some (ErrRouteConflict ''/''))"
proof -
  have t0: "trees (newRouter :: (nat, regex) router) ''GET'' = None"
    by (simp add: newRouter_def)
  have t1: "trees routerA ''GET'' =
      Some (Node nodeTypeStatic ''/'' (Some [(''a'', Node nodeTypeStatic ''a'' None (Some 0) None None [] None None)])
          None None None [] None None)"
    by code_simp
  have t2: "trees routerRoot ''GET'' = Some (Node nodeTypeStatic ''/'' None (Some 7) None None [] None None)"
    by code_simp
  show ?thesis
    using addRoute_root [of exampleCompile "newRouter :: (nat, regex) router" "''GET''" "Some 7"]
      addRoute_root [of exampleCompile routerA "''GET''" "Some 7"]
      addRoute_root [of exampleCompile routerRoot "''GET''" "Some 8"]
    by (simp add: t0 t1 t2)
qed

section \<open>Classification of a segment\<close>

lemma nodeInv_regChild:
  "nodeInv cmp n \<Longrightarrow> regChild n = Some c \<Longrightarrow>
   isRegPath (path c) \<and> typ' c = nodeTypeReg \<and> paramName c = regName (path c) \<and>
   regExpr c = cmp (regExprText (path c))"
  by (simp add: nodeInv_def)

lemma nodeInv_paramChild:
  "nodeInv cmp n \<Longrightarrow> paramChild n = Some c \<Longrightarrow>
   isParamSeg (path c) \<and> typ' c = nodeTypeParam \<and> paramName c = tl (path c)"
  by (simp add: nodeInv_def)

lemma nodeInv_starChild:
  "nodeInv cmp n \<Longrightarrow> starChild n = Some c \<Longrightarrow> path c = ''*'' \<and> typ' c = nodeTypeAny"
  by (simp add: nodeInv_def)

lemma nodeInv_static:
  "nodeInv cmp n \<Longrightarrow> map_of (childrenList n) k = Some c \<Longrightarrow>
   isStaticSeg k \<and> path c = k \<and> typ' c = nodeTypeStatic"
  by (auto simp: nodeInv_def list_all_iff dest!: map_of_SomeD)

lemma nodeInv_exclusive: "nodeInv cmp n \<Longrightarrow> exclusive n"
  by (simp add: nodeInv_def)

lemma classify_star:
  assumes "childOrCreate cmp n p = Inr (n', c)"
  shows "(p = ''*'' \<longrightarrow>
        starChild n' = Some c \<and>
        (starChild n = None \<longrightarrow> c = newNode ''*'' nodeTypeAny \<and> n' = set_starChild n (Some c)) \<and>
        (\<forall>c0. starChild n = Some c0 \<longrightarrow> c = c0 \<and> n' = n))"
  using assms by (auto simp: childOrCreate_star split: option.splits if_splits)

lemma classify_reg:
  assumes "childOrCreate cmp n p = Inr (n', c)"
  shows "(p \<noteq> ''*'' \<and> hd p = CHR '':'' \<and> isRegPath p \<longrightarrow>
        regChild n' = Some c \<and> path c = p \<and>
        (regChild n = None \<longrightarrow>
           c = Node nodeTypeReg p None None None None (regName p) None (cmp (regExprText p)) \<and>
           n' = set_regChild n (Some c)) \<and>
        (\<forall>c0. regChild n = Some c0 \<longrightarrow> c = c0 \<and> n' = n) \<and>
        (nodeInv cmp n \<longrightarrow>
           typ' c = nodeTypeReg \<and> paramName c = regName p \<and> regExpr c = cmp (regExprText p)))"
proof (cases "isRegPath p")
  case False
  then show ?thesis by simp
next
  case True
  have pc: "path c = p" using assms True by (auto simp: childOrCreate_path)
  have "nodeInv cmp n \<Longrightarrow> regChild n = Some c \<Longrightarrow>
      typ' c = nodeTypeReg \<and> paramName c = regName p \<and> regExpr c = cmp (regExprText p)"
    using nodeInv_regChild [of cmp n c] pc by simp
  with assms True show ?thesis
    by (auto simp: childOrCreate_reg split: option.splits if_splits)
qed

lemma classify_param:
  assumes "childOrCreate cmp n p = Inr (n', c)"
  shows "(p \<noteq> ''*'' \<and> hd p = CHR '':'' \<and> \<not> isRegPath p \<longrightarrow>
        paramChild n' = Some c \<and> path c = p \<and>
        (paramChild n = None \<longrightarrow>
           c = Node nodeTypeParam p None None None None (tl p) None None \<and>
           n' = set_paramChild n (Some c)) \<and>
        (\<forall>c0. paramChild n = Some c0 \<longrightarrow> c = c0 \<and> n' = n) \<and>
        (nodeInv cmp n \<longrightarrow> typ' c = nodeTypeParam \<and> paramName c = tl p))"
proof (cases "p \<noteq> ''*'' \<and> hd p = CHR '':'' \<and> \<not> isRegPath p")
  case False
  then show ?thesis by blast
next
  case True
  from assms have "p \<noteq> []" by (rule childOrCreate_nonempty)
  with True have ps: "isParamSeg p" by (simp add: isParamSeg_def)
  have pc: "path c = p" using assms ps by (auto simp: childOrCreate_path)
  have "nodeInv cmp n \<Longrightarrow> paramChild n = Some c \<Longrightarrow>
      typ' c = nodeTypeParam \<and> paramName c = tl p"
    using nodeInv_paramChild [of cmp n c] pc by simp
  with assms ps show ?thesis
    by (auto simp: childOrCreate_param split: option.splits if_splits)
qed

lemma classify_static:
  assumes "childOrCreate cmp n p = Inr (n', c)"
  shows "(p \<noteq> ''*'' \<and> hd p \<noteq> CHR '':'' \<longrightarrow>
        map_of (childrenList n') p = Some c \<and>
        (map_of (childrenList n) p = None \<longrightarrow>
           c = newNode p nodeTypeStatic \<and>
           n' = set_children n (Some (AList.update p c (childrenList n)))) \<and>
        (\<forall>c0. map_of (childrenList n) p = Some c0 \<longrightarrow>
           c = c0 \<and> n' = set_children n (Some (childrenList n))))"
proof (cases "p \<noteq> ''*'' \<and> hd p \<noteq> CHR '':''")
  case False
  then show ?thesis by blast
next
  case True
  from assms have "p \<noteq> []" by (rule childOrCreate_nonempty)
  with True have ps: "isStaticSeg p" by (simp add: isStaticSeg_def)
  with assms show ?thesis
    by (auto simp: childOrCreate_static update_conv' split: option.splits)
qed

lemma classify_decomp:
  "(\<forall>name expr.
        p = CHR '':'' # name @ CHR ''('' # expr @ '')'' \<and> name \<noteq> [] \<and> expr \<noteq> [] \<and>
        CHR 0x0A \<notin> set name \<and> CHR 0x0A \<notin> set expr \<and> CHR ''('' \<notin> set name \<longrightarrow>
        isRegPath p \<and> regName p = name \<and> regExprText p = expr)"
proof (intro allI impI)
  fix name expr
  assume a: "p = CHR '':'' # name @ CHR ''('' # expr @ '')'' \<and> name \<noteq> [] \<and> expr \<noteq> [] \<and>
        CHR 0x0A \<notin> set name \<and> CHR 0x0A \<notin> set expr \<and> CHR ''('' \<notin> set name"
  then have "isRegPath p" unfolding isRegPath_iff by blast
  moreover from a have "regName p = name" by (simp add: regName_decomp)
  moreover from a have "regExprText p = expr" by (simp add: regExprText_decomp)
  ultimately show "isRegPath p \<and> regName p = name \<and> regExprText p = expr" by simp
qed

lemma classify_success:
  assumes "childOrCreate cmp n p = Inr (n', c)"
  shows
    "(p = ''*'' \<longrightarrow>
        starChild n' = Some c \<and>
        (starChild n = None \<longrightarrow> c = newNode ''*'' nodeTypeAny \<and> n' = set_starChild n (Some c)) \<and>
        (\<forall>c0. starChild n = Some c0 \<longrightarrow> c = c0 \<and> n' = n)) \<and>
     (p \<noteq> ''*'' \<and> hd p = CHR '':'' \<and> isRegPath p \<longrightarrow>
        regChild n' = Some c \<and> path c = p \<and>
        (regChild n = None \<longrightarrow>
           c = Node nodeTypeReg p None None None None (regName p) None (cmp (regExprText p)) \<and>
           n' = set_regChild n (Some c)) \<and>
        (\<forall>c0. regChild n = Some c0 \<longrightarrow> c = c0 \<and> n' = n) \<and>
        (nodeInv cmp n \<longrightarrow>
           typ' c = nodeTypeReg \<and> paramName c = regName p \<and> regExpr c = cmp (regExprText p))) \<and>
     (p \<noteq> ''*'' \<and> hd p = CHR '':'' \<and> \<not> isRegPath p \<longrightarrow>
        paramChild n' = Some c \<and> path c = p \<and>
        (paramChild n = None \<longrightarrow>
           c = Node nodeTypeParam p None None None None (tl p) None None \<and>
           n' = set_paramChild n (Some c)) \<and>
        (\<forall>c0. paramChild n = Some c0 \<longrightarrow> c = c0 \<and> n' = n) \<and>
        (nodeInv cmp n \<longrightarrow> typ' c = nodeTypeParam \<and> paramName c = tl p)) \<and>
     (p \<noteq> ''*'' \<and> hd p \<noteq> CHR '':'' \<longrightarrow>
        map_of (childrenList n') p = Some c \<and>
        (map_of (childrenList n) p = None \<longrightarrow>
           c = newNode p nodeTypeStatic \<and>
           n' = set_children n (Some (AList.update p c (childrenList n)))) \<and>
        (\<forall>c0. map_of (childrenList n) p = Some c0 \<longrightarrow>
           c = c0 \<and> n' = set_children n (Some (childrenList n)))) \<and>
     (\<forall>name expr.
        p = CHR '':'' # name @ CHR ''('' # expr @ '')'' \<and> name \<noteq> [] \<and> expr \<noteq> [] \<and>
        CHR 0x0A \<notin> set name \<and> CHR 0x0A \<notin> set expr \<and> CHR ''('' \<notin> set name \<longrightarrow>
        isRegPath p \<and> regName p = name \<and> regExprText p = expr)"
  by (intro conjI classify_star [OF assms] classify_reg [OF assms] classify_param [OF assms]
      classify_static [OF assms] classify_decomp)

text \<open>
  Claim C5. \<open>childOrCreate\<close> classifies a segment in this order, and in each case this
  is all it does. The segment \<open>*\<close> resolves to the wildcard child: the existing one, or
  a new one unless the node has a regex or a parameter child. Otherwise a segment that
  starts with a colon and has the shape of a regular expression resolves to the regex child,
  unless the node has a parameter or a wildcard child or a regex child of another text; a
  child created now has type regex, the text between the colon and the first opening
  parenthesis as parameter name and the result of compiling the text between that
  parenthesis and the final one; an existing child has them too in a tree built by
  registration. Otherwise a segment that starts with a colon resolves to the parameter
  child, named by the text after the colon, unless the node has a regex or a wildcard child
  or a parameter child of another text. Every other segment resolves, always, to the entry
  of \<open>children\<close> under its own text, created on first use. The empty segment, which
  \<open>addRoute\<close> never passes, is an index out of range. Whenever the call succeeds, the
  node returned is the child in the slot of its kind, and an existing child is returned as
  it is. Last, for a segment written \<open>:name(expr)\<close> with a name that has no opening
  parenthesis, the name and the expression cut out are \<open>name\<close> and \<open>expr\<close>.
\<close>

theorem childOrCreate_classification:
  "childOrCreate cmp n [] = Inl ErrRuntime \<and>
   childOrCreate cmp n ''*'' =
     (case starChild n of
        None \<Rightarrow>
          if regChild n \<noteq> None then Inl ErrStarHasReg
          else if paramChild n \<noteq> None then Inl ErrStarHasParam
          else Inr (set_starChild n (Some (newNode ''*'' nodeTypeAny)), newNode ''*'' nodeTypeAny)
      | Some c0 \<Rightarrow> Inr (n, c0)) \<and>
   (p \<noteq> ''*'' \<and> p \<noteq> [] \<and> hd p = CHR '':'' \<and> isRegPath p \<longrightarrow>
      childOrCreate cmp n p =
        (if paramChild n \<noteq> None then Inl (ErrRegHasParam p)
         else if starChild n \<noteq> None then Inl (ErrRegHasStar p)
         else
           (case regChild n of
              Some c0 \<Rightarrow> if path c0 \<noteq> p then Inl (ErrRegConflict (path c0) p) else Inr (n, c0)
            | None \<Rightarrow>
                Inr (set_regChild n
                       (Some (Node nodeTypeReg p None None None None (regName p) None
                                (cmp (regExprText p)))),
                     Node nodeTypeReg p None None None None (regName p) None (cmp (regExprText p)))))) \<and>
   (p \<noteq> ''*'' \<and> p \<noteq> [] \<and> hd p = CHR '':'' \<and> \<not> isRegPath p \<longrightarrow>
      childOrCreate cmp n p =
        (if regChild n \<noteq> None then Inl (ErrParamHasReg p)
         else if starChild n \<noteq> None then Inl (ErrParamHasStar p)
         else
           (case paramChild n of
              Some c0 \<Rightarrow> if path c0 \<noteq> p then Inl (ErrParamConflict (path c0) p) else Inr (n, c0)
            | None \<Rightarrow>
                Inr (set_paramChild n (Some (Node nodeTypeParam p None None None None (tl p) None None)),
                     Node nodeTypeParam p None None None None (tl p) None None)))) \<and>
   (p \<noteq> ''*'' \<and> p \<noteq> [] \<and> hd p \<noteq> CHR '':'' \<longrightarrow>
      childOrCreate cmp n p =
        (case map_of (childrenList n) p of
           Some target \<Rightarrow> Inr (set_children n (Some (childrenList n)), target)
         | None \<Rightarrow>
             Inr (set_children n (Some (AList.update p (newNode p nodeTypeStatic) (childrenList n))),
                  newNode p nodeTypeStatic))) \<and>
   (childOrCreate cmp n p = Inr (n', c) \<longrightarrow>
     (p = ''*'' \<longrightarrow>
        starChild n' = Some c \<and>
        (starChild n = None \<longrightarrow> c = newNode ''*'' nodeTypeAny \<and> n' = set_starChild n (Some c)) \<and>
        (\<forall>c0. starChild n = Some c0 \<longrightarrow> c = c0 \<and> n' = n)) \<and>
     (p \<noteq> ''*'' \<and> hd p = CHR '':'' \<and> isRegPath p \<longrightarrow>
        regChild n' = Some c \<and> path c = p \<and>
        (regChild n = None \<longrightarrow>
           c = Node nodeTypeReg p None None None None (regName p) None (cmp (regExprText p)) \<and>
           n' = set_regChild n (Some c)) \<and>
        (\<forall>c0. regChild n = Some c0 \<longrightarrow> c = c0 \<and> n' = n) \<and>
        (nodeInv cmp n \<longrightarrow>
           typ' c = nodeTypeReg \<and> paramName c = regName p \<and> regExpr c = cmp (regExprText p))) \<and>
     (p \<noteq> ''*'' \<and> hd p = CHR '':'' \<and> \<not> isRegPath p \<longrightarrow>
        paramChild n' = Some c \<and> path c = p \<and>
        (paramChild n = None \<longrightarrow>
           c = Node nodeTypeParam p None None None None (tl p) None None \<and>
           n' = set_paramChild n (Some c)) \<and>
        (\<forall>c0. paramChild n = Some c0 \<longrightarrow> c = c0 \<and> n' = n) \<and>
        (nodeInv cmp n \<longrightarrow> typ' c = nodeTypeParam \<and> paramName c = tl p)) \<and>
     (p \<noteq> ''*'' \<and> hd p \<noteq> CHR '':'' \<longrightarrow>
        map_of (childrenList n') p = Some c \<and>
        (map_of (childrenList n) p = None \<longrightarrow>
           c = newNode p nodeTypeStatic \<and>
           n' = set_children n (Some (AList.update p c (childrenList n)))) \<and>
        (\<forall>c0. map_of (childrenList n) p = Some c0 \<longrightarrow>
           c = c0 \<and> n' = set_children n (Some (childrenList n)))) \<and>
     (\<forall>name expr.
        p = CHR '':'' # name @ CHR ''('' # expr @ '')'' \<and> name \<noteq> [] \<and> expr \<noteq> [] \<and>
        CHR 0x0A \<notin> set name \<and> CHR 0x0A \<notin> set expr \<and> CHR ''('' \<notin> set name \<longrightarrow>
        isRegPath p \<and> regName p = name \<and> regExprText p = expr))"
proof (intro conjI)
  show "childOrCreate cmp n [] = Inl ErrRuntime"
    by (simp add: childOrCreate_def)
  show "childOrCreate cmp n ''*'' =
     (case starChild n of
        None \<Rightarrow>
          if regChild n \<noteq> None then Inl ErrStarHasReg
          else if paramChild n \<noteq> None then Inl ErrStarHasParam
          else Inr (set_starChild n (Some (newNode ''*'' nodeTypeAny)), newNode ''*'' nodeTypeAny)
      | Some c0 \<Rightarrow> Inr (n, c0))"
    by (rule childOrCreate_star)
  show "(p \<noteq> ''*'' \<and> p \<noteq> [] \<and> hd p = CHR '':'' \<and> isRegPath p \<longrightarrow>
      childOrCreate cmp n p =
        (if paramChild n \<noteq> None then Inl (ErrRegHasParam p)
         else if starChild n \<noteq> None then Inl (ErrRegHasStar p)
         else
           (case regChild n of
              Some c0 \<Rightarrow> if path c0 \<noteq> p then Inl (ErrRegConflict (path c0) p) else Inr (n, c0)
            | None \<Rightarrow>
                Inr (set_regChild n
                       (Some (Node nodeTypeReg p None None None None (regName p) None
                                (cmp (regExprText p)))),
                     Node nodeTypeReg p None None None None (regName p) None (cmp (regExprText p))))))"
    by (simp add: childOrCreate_reg)
  show "(p \<noteq> ''*'' \<and> p \<noteq> [] \<and> hd p = CHR '':'' \<and> \<not> isRegPath p \<longrightarrow>
      childOrCreate cmp n p =
        (if regChild n \<noteq> None then Inl (ErrParamHasReg p)
         else if starChild n \<noteq> None then Inl (ErrParamHasStar p)
         else
           (case paramChild n of
              Some c0 \<Rightarrow> if path c0 \<noteq> p then Inl (ErrParamConflict (path c0) p) else Inr (n, c0)
            | None \<Rightarrow>
                Inr (set_paramChild n (Some (Node nodeTypeParam p None None None None (tl p) None None)),
                     Node nodeTypeParam p None None None None (tl p) None None))))"
    by (simp add: childOrCreate_param isParamSeg_def)
  show "(p \<noteq> ''*'' \<and> p \<noteq> [] \<and> hd p \<noteq> CHR '':'' \<longrightarrow>
      childOrCreate cmp n p =
        (case map_of (childrenList n) p of
           Some target \<Rightarrow> Inr (set_children n (Some (childrenList n)), target)
         | None \<Rightarrow>
             Inr (set_children n (Some (AList.update p (newNode p nodeTypeStatic) (childrenList n))),
                  newNode p nodeTypeStatic)))"
    by (simp add: childOrCreate_static isStaticSeg_def)
  show "childOrCreate cmp n p = Inr (n', c) \<longrightarrow>
     (p = ''*'' \<longrightarrow>
        starChild n' = Some c \<and>
        (starChild n = None \<longrightarrow> c = newNode ''*'' nodeTypeAny \<and> n' = set_starChild n (Some c)) \<and>
        (\<forall>c0. starChild n = Some c0 \<longrightarrow> c = c0 \<and> n' = n)) \<and>
     (p \<noteq> ''*'' \<and> hd p = CHR '':'' \<and> isRegPath p \<longrightarrow>
        regChild n' = Some c \<and> path c = p \<and>
        (regChild n = None \<longrightarrow>
           c = Node nodeTypeReg p None None None None (regName p) None (cmp (regExprText p)) \<and>
           n' = set_regChild n (Some c)) \<and>
        (\<forall>c0. regChild n = Some c0 \<longrightarrow> c = c0 \<and> n' = n) \<and>
        (nodeInv cmp n \<longrightarrow>
           typ' c = nodeTypeReg \<and> paramName c = regName p \<and> regExpr c = cmp (regExprText p))) \<and>
     (p \<noteq> ''*'' \<and> hd p = CHR '':'' \<and> \<not> isRegPath p \<longrightarrow>
        paramChild n' = Some c \<and> path c = p \<and>
        (paramChild n = None \<longrightarrow>
           c = Node nodeTypeParam p None None None None (tl p) None None \<and>
           n' = set_paramChild n (Some c)) \<and>
        (\<forall>c0. paramChild n = Some c0 \<longrightarrow> c = c0 \<and> n' = n) \<and>
        (nodeInv cmp n \<longrightarrow> typ' c = nodeTypeParam \<and> paramName c = tl p)) \<and>
     (p \<noteq> ''*'' \<and> hd p \<noteq> CHR '':'' \<longrightarrow>
        map_of (childrenList n') p = Some c \<and>
        (map_of (childrenList n) p = None \<longrightarrow>
           c = newNode p nodeTypeStatic \<and>
           n' = set_children n (Some (AList.update p c (childrenList n)))) \<and>
        (\<forall>c0. map_of (childrenList n) p = Some c0 \<longrightarrow>
           c = c0 \<and> n' = set_children n (Some (childrenList n)))) \<and>
     (\<forall>name expr.
        p = CHR '':'' # name @ CHR ''('' # expr @ '')'' \<and> name \<noteq> [] \<and> expr \<noteq> [] \<and>
        CHR 0x0A \<notin> set name \<and> CHR 0x0A \<notin> set expr \<and> CHR ''('' \<notin> set name \<longrightarrow>
        isRegPath p \<and> regName p = name \<and> regExprText p = expr)"
    by (rule impI) (rule classify_success)
qed

theorem childOrCreate_classification_witness:
  "childOrCreate exampleCompile bareRoot ''*'' = Inr (nodeWithStar, newNode ''*'' nodeTypeAny) \<and>
   childOrCreate exampleCompile bareRoot '':id(^[0-9]+$)'' =
     Inr (nodeWithDigits,
          Node nodeTypeReg '':id(^[0-9]+$)'' None None None None ''id'' None (Some Digits)) \<and>
   childOrCreate exampleCompile bareRoot '':id'' =
     Inr (nodeWithId, Node nodeTypeParam '':id'' None None None None ''id'' None None) \<and>
   childOrCreate exampleCompile bareRoot ''a'' =
     Inr (set_children bareRoot (Some [(''a'', newNode ''a'' nodeTypeStatic)]),
          newNode ''a'' nodeTypeStatic) \<and>
   childOrCreate exampleCompile nodeWithId '':id'' =
     Inr (nodeWithId, Node nodeTypeParam '':id'' None None None None ''id'' None None) \<and>
   childOrCreate exampleCompile nodeWithId ''a'' =
     Inr (set_children nodeWithId (Some [(''a'', newNode ''a'' nodeTypeStatic)]),
          newNode ''a'' nodeTypeStatic) \<and>
   regChild nodeWithDigits =
     Some (Node nodeTypeReg '':id(^[0-9]+$)'' None None None None ''id'' None (Some Digits)) \<and>
   isRegPath '':id(^[0-9]+$)'' \<and>
   regName '':id(^[0-9]+$)'' = ''id'' \<and> regExprText '':id(^[0-9]+$)'' = ''^[0-9]+$''"
proof -
  let ?d = "Node nodeTypeReg '':id(^[0-9]+$)'' None None None None ''id'' None (Some Digits) :: (nat, regex) node"
  let ?i = "Node nodeTypeParam '':id'' None None None None ''id'' None None :: (nat, regex) node"
  have b: "starChild bareRoot = None" "regChild bareRoot = None" "paramChild bareRoot = None"
    "childrenList bareRoot = []"
    by code_simp+
  have w: "paramChild nodeWithId = Some ?i" "regChild nodeWithId = None" "starChild nodeWithId = None"
    "childrenList nodeWithId = []"
    by code_simp+
  have k: "regName '':id(^[0-9]+$)'' = ''id''" "regExprText '':id(^[0-9]+$)'' = ''^[0-9]+$''"
    "exampleCompile ''^[0-9]+$'' = Some Digits" "isRegPath '':id(^[0-9]+$)''" "\<not> isRegPath '':id''"
    by code_simp+
  from childOrCreate_classification [where cmp = exampleCompile and n = bareRoot,
      THEN conjunct2, THEN conjunct1] b
  have e1: "childOrCreate exampleCompile bareRoot ''*'' = Inr (nodeWithStar, newNode ''*'' nodeTypeAny)"
    by (simp add: nodeWithStar_def)
  from childOrCreate_classification [where cmp = exampleCompile and n = bareRoot
      and p = "'':id(^[0-9]+$)''", THEN conjunct2, THEN conjunct2, THEN conjunct1] b k
  have e2: "childOrCreate exampleCompile bareRoot '':id(^[0-9]+$)'' = Inr (nodeWithDigits, ?d)"
    by (simp add: nodeWithDigits_def)
  from childOrCreate_classification [where cmp = exampleCompile and n = bareRoot
      and p = "'':id''", THEN conjunct2, THEN conjunct2, THEN conjunct2, THEN conjunct1] b k
  have e3: "childOrCreate exampleCompile bareRoot '':id'' = Inr (nodeWithId, ?i)"
    by (simp add: nodeWithId_def)
  from childOrCreate_classification [where cmp = exampleCompile and n = bareRoot
      and p = "''a''", THEN conjunct2, THEN conjunct2, THEN conjunct2, THEN conjunct2, THEN conjunct1] b
  have e4: "childOrCreate exampleCompile bareRoot ''a'' =
     Inr (set_children bareRoot (Some [(''a'', newNode ''a'' nodeTypeStatic)]), newNode ''a'' nodeTypeStatic)"
    by simp
  from childOrCreate_classification [where cmp = exampleCompile and n = nodeWithId
      and p = "'':id''", THEN conjunct2, THEN conjunct2, THEN conjunct2, THEN conjunct1] w k
  have e5: "childOrCreate exampleCompile nodeWithId '':id'' = Inr (nodeWithId, ?i)"
    by simp
  from childOrCreate_classification [where cmp = exampleCompile and n = nodeWithId
      and p = "''a''", THEN conjunct2, THEN conjunct2, THEN conjunct2, THEN conjunct2, THEN conjunct1] w
  have e6: "childOrCreate exampleCompile nodeWithId ''a'' =
     Inr (set_children nodeWithId (Some [(''a'', newNode ''a'' nodeTypeStatic)]), newNode ''a'' nodeTypeStatic)"
    by simp
  from childOrCreate_classification [where cmp = exampleCompile and n = bareRoot
      and p = "'':id(^[0-9]+$)''" and n' = nodeWithDigits and c = ?d,
      THEN conjunct2, THEN conjunct2, THEN conjunct2, THEN conjunct2, THEN conjunct2, THEN mp, OF e2,
      THEN conjunct2, THEN conjunct1] k
  have e7: "regChild nodeWithDigits = Some ?d" by simp
  from e1 e2 e3 e4 e5 e6 e7 k show ?thesis by simp
qed

section \<open>Two routes that differ in their last segment\<close>

lemma addSegs_split:
  "addSegs cmp n (pre @ ss) pth h = (n1, None) \<Longrightarrow>
   \<exists>u0 u. nodeAt n1 pre = Some u \<and> addSegs cmp u0 ss pth h = (u, None)"
proof (induction pre arbitrary: n n1)
  case Nil
  then show ?case by auto
next
  case (Cons p pre)
  from Cons.prems obtain n' c c' where coc: "childOrCreate cmp n p = Inr (n', c)"
    and rec: "addSegs cmp c (pre @ ss) pth h = (c', None)"
    and n1: "n1 = setChild n' p c'"
    by (auto split: if_splits sum.splits prod.splits)
  from Cons.IH [OF rec] show ?case by (simp add: n1)
qed

lemma addSegs_prefix_again:
  "addSegs cmp n (pre @ ss) pth h = (n1, None) \<Longrightarrow> nodeAt n1 pre = Some u \<Longrightarrow>
   addSegs cmp u ts pth' h' = (u, e) \<Longrightarrow>
   addSegs cmp n1 (pre @ ts) pth' h' = (n1, e)"
proof (induction pre arbitrary: n n1)
  case Nil
  then show ?case by simp
next
  case (Cons p pre)
  from Cons.prems(1) obtain n' c c' where p: "p \<noteq> []"
    and coc: "childOrCreate cmp n p = Inr (n', c)"
    and rec: "addSegs cmp c (pre @ ss) pth h = (c', None)"
    and n1: "n1 = setChild n' p c'"
    by (auto split: if_splits sum.splits prod.splits)
  from Cons.prems(2) have at: "nodeAt c' pre = Some u" by (simp add: n1)
  from Cons.IH [OF rec at Cons.prems(3)]
  have "addSegs cmp c' (pre @ ts) pth' h' = (c', e)" .
  moreover from childOrCreate_again [OF coc addSegs_fields(2) [OF rec]]
  have "childOrCreate cmp n1 p = Inr (n1, c')" by (simp add: n1)
  ultimately show ?case using p by (simp add: n1)
qed

lemma addSegs_last:
  assumes "addSegs cmp u0 [s] pth h = (u, None)"
  obtains u2 c where "childOrCreate cmp u0 s = Inr (u2, c)" "u = setChild u2 s (set_handler c h)"
  using assms by (auto split: if_splits sum.splits prod.splits)

lemma special_child_facts:
  assumes "childOrCreate cmp u0 s = Inr (u2, c)" and "path c' = path c" and "u = setChild u2 s c'"
  shows "s = ''*'' \<Longrightarrow> starChild u = Some c'"
    and "isRegPath s \<Longrightarrow>
          regChild u = Some c' \<and> path c' = s \<and> paramChild u = None \<and> starChild u = None"
    and "isParamSeg s \<Longrightarrow>
          paramChild u = Some c' \<and> path c' = s \<and> regChild u = None \<and> starChild u = None"
proof -
  show "s = ''*'' \<Longrightarrow> starChild u = Some c'"
    using assms by (simp add: setChild_simps)
  show "isRegPath s \<Longrightarrow>
          regChild u = Some c' \<and> path c' = s \<and> paramChild u = None \<and> starChild u = None"
    using assms childOrCreate_path [OF assms(1)]
    by (auto simp: setChild_simps childOrCreate_reg split: option.splits if_splits)
  show "isParamSeg s \<Longrightarrow>
          paramChild u = Some c' \<and> path c' = s \<and> regChild u = None \<and> starChild u = None"
    using assms childOrCreate_path [OF assms(1)]
    by (auto simp: setChild_simps childOrCreate_param split: option.splits if_splits)
qed

lemma clash_conflict:
  assumes coc: "childOrCreate cmp u0 s = Inr (u2, c)" and pc: "path c' = path c"
    and u: "u = setChild u2 s c'"
    and s: "s = ''*'' \<or> isRegPath s \<or> isParamSeg s"
    and t: "t = ''*'' \<or> isRegPath t \<or> isParamSeg t"
    and ne: "s \<noteq> t"
  shows "\<exists>e. childOrCreate cmp u t = Inl e \<and> isConflictError e \<and>
           (isParamSeg s \<and> isParamSeg t \<longrightarrow> e = ErrParamConflict s t) \<and>
           (isRegPath s \<and> isRegPath t \<longrightarrow> e = ErrRegConflict s t)"
proof -
  note f = special_child_facts [OF coc pc u]
  from s show ?thesis
  proof (elim disjE)
    assume s': "s = ''*''"
    have ns: "\<not> isRegPath s" "\<not> isParamSeg s" using s' seg_disjoint(4,5) by simp_all
    from f(1) [OF s'] have st: "starChild u = Some c'" .
    from ne t s' have "isRegPath t \<or> isParamSeg t" by auto
    then show ?thesis
    proof
      assume "isRegPath t"
      then show ?thesis using st ns by (simp add: childOrCreate_reg)
    next
      assume "isParamSeg t"
      then show ?thesis using st ns by (simp add: childOrCreate_param)
    qed
  next
    assume s': "isRegPath s"
    have ns: "\<not> isParamSeg s" using seg_disjoint(1) [OF s'] by simp
    from f(2) [OF s'] have st: "regChild u = Some c'" "path c' = s" "paramChild u = None"
      "starChild u = None" by simp_all
    from t show ?thesis
    proof (elim disjE)
      assume "t = ''*''"
      then show ?thesis using st ns seg_disjoint(4) by (simp add: childOrCreate_star)
    next
      assume "isRegPath t"
      then show ?thesis using st ns ne by (simp add: childOrCreate_reg)
    next
      assume t': "isParamSeg t"
      have "\<not> isRegPath t" using seg_disjoint(2) [OF t'] by simp
      then show ?thesis using t' st ns by (simp add: childOrCreate_param)
    qed
  next
    assume s': "isParamSeg s"
    have ns: "\<not> isRegPath s" using seg_disjoint(2) [OF s'] by simp
    from f(3) [OF s'] have st: "paramChild u = Some c'" "path c' = s" "regChild u = None"
      "starChild u = None" by simp_all
    from t show ?thesis
    proof (elim disjE)
      assume "t = ''*''"
      then show ?thesis using st ns seg_disjoint(5) by (simp add: childOrCreate_star)
    next
      assume t': "isRegPath t"
      have "\<not> isParamSeg t" using seg_disjoint(1) [OF t'] by simp
      then show ?thesis using t' st ns by (simp add: childOrCreate_reg)
    next
      assume "isParamSeg t"
      then show ?thesis using st ns ne by (simp add: childOrCreate_param)
    qed
  qed
qed

lemma sibling_conflict:
  assumes ok: "addRoute cmp r m p (Some h) = (r1, None)"
    and p: "segsOf p = pre @ [s]"
    and q: "validPath q" "segsOf q = pre @ [t]"
    and s: "s = ''*'' \<or> isRegPath s \<or> isParamSeg s"
    and t: "t = ''*'' \<or> isRegPath t \<or> isParamSeg t"
    and ne: "s \<noteq> t"
  shows "\<exists>e. addRoute cmp r1 m q h' = (r1, Some e) \<and> isConflictError e \<and>
           (isParamSeg s \<and> isParamSeg t \<longrightarrow> e = ErrParamConflict s t) \<and>
           (isRegPath s \<and> isRegPath t \<longrightarrow> e = ErrRegConflict s t)"
proof -
  from ok obtain root root1 where seg: "addSegs cmp root (segsOf p) p (Some h) = (root1, None)"
    and r1: "r1 = r\<lparr>trees := (trees r)(m \<mapsto> root1)\<rparr>"
    by (rule addRoute_success)
  from addSegs_split [OF seg [unfolded p]] obtain u0 u
    where at: "nodeAt root1 pre = Some u" and lst: "addSegs cmp u0 [s] p (Some h) = (u, None)"
    by blast
  from lst obtain u2 c where coc: "childOrCreate cmp u0 s = Inr (u2, c)"
    and u: "u = setChild u2 s (set_handler c (Some h))"
    by (rule addSegs_last)
  have "path (set_handler c (Some h)) = path c" by simp
  from clash_conflict [OF coc this u s t ne] obtain e
    where e: "childOrCreate cmp u t = Inl e" "isConflictError e"
      "isParamSeg s \<and> isParamSeg t \<longrightarrow> e = ErrParamConflict s t"
      "isRegPath s \<and> isRegPath t \<longrightarrow> e = ErrRegConflict s t"
    by blast
  from t have tne: "t \<noteq> []" by (auto simp: isParamSeg_def dest: isRegPath_hd)
  with e(1) have "addSegs cmp u [t] q h' = (u, Some e)" by simp
  from addSegs_prefix_again [OF seg [unfolded p] at this]
  have ag: "addSegs cmp root1 (segsOf q) q h' = (root1, Some e)" by (simp add: q(2))
  have tr: "trees r1 m = Some root1" by (simp add: r1)
  from q have "q \<noteq> ''/''" by (auto simp: segsOf_def)
  with q(1) ag have "addRoute cmp r1 m q h' = (r1, Some e)"
    by (auto simp: addRoute_def validPath_def segsOf_def tr trees_upd_same [OF tr])
  with e show ?thesis by blast
qed

lemma exclusive_param: "exclusive n \<Longrightarrow> paramChild n = Some c \<Longrightarrow> regChild n = None \<and> starChild n = None"
  by (auto simp: exclusive_def)

lemma exclusive_reg: "exclusive n \<Longrightarrow> regChild n = Some c \<Longrightarrow> paramChild n = None \<and> starChild n = None"
  by (auto simp: exclusive_def)

text \<open>
  Claim C6. At a node whose three special children exclude each other and that has a
  parameter child, \<open>childOrCreate\<close> of a parameter segment returns that child and leaves
  the node as it is when the segment is the child's path, and panics with the
  parameter-conflict message otherwise; the same holds for a regex child and a segment of
  regex shape. At any node, a call of \<open>childOrCreate\<close> that repeats a successful one
  returns the same child and changes nothing. For routes: after a successful \<open>addRoute\<close> of a path that ends in a
  parameter (regex) segment, \<open>addRoute\<close> for the same method of a valid path that differs
  from it only in ending in another parameter (regex) segment panics with that conflict
  and leaves the router as it was.
\<close>

theorem reregister_same_kind:
  "(isParamSeg p \<and> paramChild n = Some c \<and> exclusive n \<longrightarrow>
      childOrCreate cmp n p =
        (if path c = p then Inr (n, c) else Inl (ErrParamConflict (path c) p))) \<and>
   (isRegPath p \<and> regChild n = Some c \<and> exclusive n \<longrightarrow>
      childOrCreate cmp n p =
        (if path c = p then Inr (n, c) else Inl (ErrRegConflict (path c) p))) \<and>
   isConflictError (ErrParamConflict old p) \<and> isConflictError (ErrRegConflict old p) \<and>
   (addRoute cmp r m pth (Some h) = (r1, None) \<and> segsOf pth = pre @ [s] \<and>
    validPath qth \<and> segsOf qth = pre @ [t] \<and> s \<noteq> t \<and>
    (isParamSeg s \<and> isParamSeg t \<or> isRegPath s \<and> isRegPath t) \<longrightarrow>
      addRoute cmp r1 m qth h' =
        (r1, Some (if isParamSeg s then ErrParamConflict s t else ErrRegConflict s t))) \<and>
   (childOrCreate cmp n p = Inr (n', c) \<longrightarrow> childOrCreate cmp n' p = Inr (n', c))"
proof (intro conjI impI)
  assume coc: "childOrCreate cmp n p = Inr (n', c)"
  from childOrCreate_again [OF coc refl] setChild_same [OF childOrCreate_slot [OF coc]]
  show "childOrCreate cmp n' p = Inr (n', c)" by simp
next
  assume "isParamSeg p \<and> paramChild n = Some c \<and> exclusive n"
  then show "childOrCreate cmp n p =
        (if path c = p then Inr (n, c) else Inl (ErrParamConflict (path c) p))"
    using exclusive_param [of n c] by (simp add: childOrCreate_param)
next
  assume "isRegPath p \<and> regChild n = Some c \<and> exclusive n"
  then show "childOrCreate cmp n p =
        (if path c = p then Inr (n, c) else Inl (ErrRegConflict (path c) p))"
    using exclusive_reg [of n c] by (simp add: childOrCreate_reg)
next
  assume a: "addRoute cmp r m pth (Some h) = (r1, None) \<and> segsOf pth = pre @ [s] \<and>
    validPath qth \<and> segsOf qth = pre @ [t] \<and> s \<noteq> t \<and>
    (isParamSeg s \<and> isParamSeg t \<or> isRegPath s \<and> isRegPath t)"
  then have k: "s = ''*'' \<or> isRegPath s \<or> isParamSeg s" "t = ''*'' \<or> isRegPath t \<or> isParamSeg t"
    by auto
  from a have ok: "addRoute cmp r m pth (Some h) = (r1, None)" and sp: "segsOf pth = pre @ [s]"
    and vq: "validPath qth" and sq: "segsOf qth = pre @ [t]" and ne: "s \<noteq> t"
    by simp_all
  from sibling_conflict [OF ok sp vq sq k ne, of h'] obtain e
    where e: "addRoute cmp r1 m qth h' = (r1, Some e)"
      "isParamSeg s \<and> isParamSeg t \<longrightarrow> e = ErrParamConflict s t"
      "isRegPath s \<and> isRegPath t \<longrightarrow> e = ErrRegConflict s t"
    by blast
  from a have "isParamSeg s \<and> isParamSeg t \<or> isRegPath s \<and> isRegPath t" by simp
  then show "addRoute cmp r1 m qth h' =
        (r1, Some (if isParamSeg s then ErrParamConflict s t else ErrRegConflict s t))"
    using e seg_disjoint(1) [of s] by auto
qed simp_all

theorem reregister_same_kind_witness:
  "childOrCreate exampleCompile nodeWithId '':id'' =
     Inr (nodeWithId, Node nodeTypeParam '':id'' None None None None ''id'' None None) \<and>
   childOrCreate exampleCompile nodeWithId '':name'' = Inl (ErrParamConflict '':id'' '':name'') \<and>
   childOrCreate exampleCompile nodeWithDigits '':id(^[0-9]+$)'' =
     Inr (nodeWithDigits, Node nodeTypeReg '':id(^[0-9]+$)'' None None None None ''id'' None (Some Digits)) \<and>
   childOrCreate exampleCompile nodeWithDigits '':id([)'' =
     Inl (ErrRegConflict '':id(^[0-9]+$)'' '':id([)'') \<and>
   addRoute exampleCompile newRouter ''GET'' ''/user/:id'' (Some 1) = (routerUserId, None) \<and>
   addRoute exampleCompile routerUserId ''GET'' ''/user/:name'' (Some 2) =
     (routerUserId, Some (ErrParamConflict '':id'' '':name''))"
proof -
  let ?idn = "Node nodeTypeParam '':id'' None None None None ''id'' None None :: (nat, regex) node"
  let ?dn = "Node nodeTypeReg '':id(^[0-9]+$)'' None None None None ''id'' None (Some Digits) :: (nat, regex) node"
  have k: "isParamSeg '':id''" "isParamSeg '':name''" "isRegPath '':id(^[0-9]+$)''" "isRegPath '':id([)''"
    by code_simp+
  have n1: "paramChild nodeWithId = Some ?idn" "exclusive nodeWithId"
    "regChild nodeWithDigits = Some ?dn" "exclusive nodeWithDigits"
    by code_simp+
  have "snd (addRoute exampleCompile newRouter ''GET'' ''/user/:id'' (Some (1::nat))) = None"
    by code_simp
  then have ok: "addRoute exampleCompile newRouter ''GET'' ''/user/:id'' (Some 1) = (routerUserId, None)"
    by (simp add: routerUserId_def prod_eq_iff)
  have sg: "segsOf ''/user/:id'' = [''user''] @ ['':id'']" "segsOf ''/user/:name'' = [''user''] @ ['':name'']"
    "validPath ''/user/:name''"
    by code_simp+
  note T1 = reregister_same_kind [where p = "'':id''" and n = nodeWithId and c = ?idn and cmp = exampleCompile, THEN conjunct1]
  note T2 = reregister_same_kind [where p = "'':name''" and n = nodeWithId and c = ?idn and cmp = exampleCompile, THEN conjunct1]
  note T3 = reregister_same_kind [where p = "'':id(^[0-9]+$)''" and n = nodeWithDigits and c = ?dn
      and cmp = exampleCompile, THEN conjunct2, THEN conjunct1]
  note T4 = reregister_same_kind [where p = "'':id([)''" and n = nodeWithDigits and c = ?dn
      and cmp = exampleCompile, THEN conjunct2, THEN conjunct1]
  note T5 = reregister_same_kind [where cmp = exampleCompile and r = newRouter and m = "''GET''"
      and pth = "''/user/:id''" and h = 1 and ?r1.0 = routerUserId and pre = "[''user'']"
      and s = "'':id''" and t = "'':name''" and qth = "''/user/:name''" and h' = "Some 2",
      THEN conjunct2, THEN conjunct2, THEN conjunct2, THEN conjunct2, THEN conjunct1]
  have a1: "childOrCreate exampleCompile nodeWithId '':id'' = Inr (nodeWithId, ?idn)"
    using T1 k n1 by simp
  have a2: "childOrCreate exampleCompile nodeWithId '':name'' = Inl (ErrParamConflict '':id'' '':name'')"
    using T2 k n1 by simp
  have a3: "childOrCreate exampleCompile nodeWithDigits '':id(^[0-9]+$)'' = Inr (nodeWithDigits, ?dn)"
    using T3 k n1 by simp
  have a4: "childOrCreate exampleCompile nodeWithDigits '':id([)'' =
     Inl (ErrRegConflict '':id(^[0-9]+$)'' '':id([)'')"
    using T4 k n1 by simp
  have a5: "addRoute exampleCompile routerUserId ''GET'' ''/user/:name'' (Some 2) =
     (routerUserId, Some (ErrParamConflict '':id'' '':name''))"
    using T5 k ok sg by simp
  from a1 a2 a3 a4 a5 ok show ?thesis by simp
qed

text \<open>
  Claim C7. At a node whose three special children exclude each other and that has a
  parameter or a regex child, \<open>childOrCreate\<close> of the segment \<open>*\<close> panics with a conflict.
  At a node that has a wildcard child, \<open>childOrCreate\<close> of a parameter segment or of a
  segment of regex shape panics with a conflict. At a node that has a parameter child a
  segment of regex shape panics with a conflict, and at a node that has a regex child a
  parameter segment does. For routes, in either order of registration: after a successful
  \<open>addRoute\<close> of a path that ends in a segment of one of the three special kinds,
  \<open>addRoute\<close> for the same method of a valid path that differs from it only in ending in
  a segment of another of these kinds panics with a conflict and leaves the router as it
  was.
\<close>

theorem mixing_kinds_conflict:
  "(exclusive n \<and> (regChild n \<noteq> None \<or> paramChild n \<noteq> None) \<longrightarrow>
      childOrCreate cmp n ''*'' =
        Inl (if regChild n \<noteq> None then ErrStarHasReg else ErrStarHasParam)) \<and>
   (starChild n \<noteq> None \<and> isParamSeg t \<longrightarrow>
      childOrCreate cmp n t =
        Inl (if regChild n \<noteq> None then ErrParamHasReg t else ErrParamHasStar t)) \<and>
   (starChild n \<noteq> None \<and> isRegPath t \<longrightarrow>
      childOrCreate cmp n t =
        Inl (if paramChild n \<noteq> None then ErrRegHasParam t else ErrRegHasStar t)) \<and>
   (paramChild n \<noteq> None \<and> isRegPath t \<longrightarrow> childOrCreate cmp n t = Inl (ErrRegHasParam t)) \<and>
   (regChild n \<noteq> None \<and> isParamSeg t \<longrightarrow> childOrCreate cmp n t = Inl (ErrParamHasReg t)) \<and>
   (isConflictError ErrStarHasReg \<and> isConflictError ErrStarHasParam \<and>
    isConflictError (ErrParamHasReg t) \<and> isConflictError (ErrParamHasStar t) \<and>
    isConflictError (ErrRegHasParam t) \<and> isConflictError (ErrRegHasStar t)) \<and>
   (addRoute cmp r m pth (Some h) = (r1, None) \<and> segsOf pth = pre @ [s] \<and>
    validPath qth \<and> segsOf qth = pre @ [u] \<and>
    (s = ''*'' \<and> (isParamSeg u \<or> isRegPath u) \<or>
     u = ''*'' \<and> (isParamSeg s \<or> isRegPath s) \<or>
     isParamSeg s \<and> isRegPath u \<or>
     isRegPath s \<and> isParamSeg u) \<longrightarrow>
      (\<exists>e. addRoute cmp r1 m qth h' = (r1, Some e) \<and> isConflictError e))"
proof (intro conjI impI)
  assume "exclusive n \<and> (regChild n \<noteq> None \<or> paramChild n \<noteq> None)"
  then show "childOrCreate cmp n ''*'' =
        Inl (if regChild n \<noteq> None then ErrStarHasReg else ErrStarHasParam)"
    by (auto simp: childOrCreate_star exclusive_def split: option.splits)
next
  assume "starChild n \<noteq> None \<and> isParamSeg t"
  then show "childOrCreate cmp n t =
        Inl (if regChild n \<noteq> None then ErrParamHasReg t else ErrParamHasStar t)"
    by (simp add: childOrCreate_param)
next
  assume "starChild n \<noteq> None \<and> isRegPath t"
  then show "childOrCreate cmp n t =
        Inl (if paramChild n \<noteq> None then ErrRegHasParam t else ErrRegHasStar t)"
    by (simp add: childOrCreate_reg)
next
  assume "paramChild n \<noteq> None \<and> isRegPath t"
  then show "childOrCreate cmp n t = Inl (ErrRegHasParam t)"
    by (simp add: childOrCreate_reg)
next
  assume "regChild n \<noteq> None \<and> isParamSeg t"
  then show "childOrCreate cmp n t = Inl (ErrParamHasReg t)"
    by (simp add: childOrCreate_param)
next
  assume a: "addRoute cmp r m pth (Some h) = (r1, None) \<and> segsOf pth = pre @ [s] \<and>
    validPath qth \<and> segsOf qth = pre @ [u] \<and>
    (s = ''*'' \<and> (isParamSeg u \<or> isRegPath u) \<or>
     u = ''*'' \<and> (isParamSeg s \<or> isRegPath s) \<or>
     isParamSeg s \<and> isRegPath u \<or>
     isRegPath s \<and> isParamSeg u)"
  then have k: "s = ''*'' \<or> isRegPath s \<or> isParamSeg s" "u = ''*'' \<or> isRegPath u \<or> isParamSeg u"
    by auto
  from a have ne: "s \<noteq> u"
    using seg_disjoint(1) [of s] seg_disjoint(4,5) by auto
  from a have ok: "addRoute cmp r m pth (Some h) = (r1, None)" and sp: "segsOf pth = pre @ [s]"
    and vq: "validPath qth" and sq: "segsOf qth = pre @ [u]"
    by simp_all
  from sibling_conflict [OF ok sp vq sq k ne, of h']
  show "\<exists>e. addRoute cmp r1 m qth h' = (r1, Some e) \<and> isConflictError e"
    by blast
qed simp_all

theorem mixing_kinds_conflict_witness:
  "addRoute exampleCompile newRouter ''GET'' ''/user/:id'' (Some 1) = (routerUserId, None) \<and>
   addRoute exampleCompile routerUserId ''GET'' ''/user/*'' (Some 2) = (routerUserId, Some ErrStarHasParam) \<and>
   addRoute exampleCompile newRouter ''GET'' ''/user/*'' (Some 1) = (routerUserStar, None) \<and>
   addRoute exampleCompile routerUserStar ''GET'' ''/user/:id'' (Some 2) =
     (routerUserStar, Some (ErrParamHasStar '':id'')) \<and>
   addRoute exampleCompile newRouter ''GET'' ''/user/:id(^[0-9]+$)'' (Some 1) = (routerUserDigits, None) \<and>
   addRoute exampleCompile routerUserDigits ''GET'' ''/user/:id'' (Some 2) =
     (routerUserDigits, Some (ErrParamHasReg '':id'')) \<and>
   childOrCreate exampleCompile nodeWithId ''*'' = Inl ErrStarHasParam \<and>
   childOrCreate exampleCompile nodeWithDigits ''*'' = Inl ErrStarHasReg \<and>
   childOrCreate exampleCompile nodeWithStar '':id'' = Inl (ErrParamHasStar '':id'') \<and>
   childOrCreate exampleCompile nodeWithStar '':id(^[0-9]+$)'' = Inl (ErrRegHasStar '':id(^[0-9]+$)'') \<and>
   childOrCreate exampleCompile nodeWithId '':id(^[0-9]+$)'' = Inl (ErrRegHasParam '':id(^[0-9]+$)'') \<and>
   childOrCreate exampleCompile nodeWithDigits '':id'' = Inl (ErrParamHasReg '':id'')"
proof -
  have k: "isParamSeg '':id''" "isRegPath '':id(^[0-9]+$)''"
    by code_simp+
  have n1: "paramChild nodeWithId \<noteq> None" "exclusive nodeWithId" "regChild nodeWithId = None"
    "regChild nodeWithDigits \<noteq> None" "exclusive nodeWithDigits"
    "starChild nodeWithStar \<noteq> None" "regChild nodeWithStar = None" "paramChild nodeWithStar = None"
    by code_simp+
  have "snd (addRoute exampleCompile newRouter ''GET'' ''/user/:id'' (Some (1::nat))) = None"
    "snd (addRoute exampleCompile newRouter ''GET'' ''/user/*'' (Some (1::nat))) = None"
    "snd (addRoute exampleCompile newRouter ''GET'' ''/user/:id(^[0-9]+$)'' (Some (1::nat))) = None"
    by code_simp+
  then have ok: "addRoute exampleCompile newRouter ''GET'' ''/user/:id'' (Some 1) = (routerUserId, None)"
    "addRoute exampleCompile newRouter ''GET'' ''/user/*'' (Some 1) = (routerUserStar, None)"
    "addRoute exampleCompile newRouter ''GET'' ''/user/:id(^[0-9]+$)'' (Some 1) = (routerUserDigits, None)"
    by (simp_all add: routerUserId_def routerUserStar_def routerUserDigits_def prod_eq_iff)
  have sg: "segsOf ''/user/:id'' = [''user''] @ ['':id'']" "segsOf ''/user/*'' = [''user''] @ [''*'']"
    "segsOf ''/user/:id(^[0-9]+$)'' = [''user''] @ ['':id(^[0-9]+$)'']"
    "validPath ''/user/*''" "validPath ''/user/:id''"
    by code_simp+
  have ev: "snd (addRoute exampleCompile routerUserId ''GET'' ''/user/*'' (Some 2)) = Some ErrStarHasParam"
    "snd (addRoute exampleCompile routerUserStar ''GET'' ''/user/:id'' (Some 2)) = Some (ErrParamHasStar '':id'')"
    "snd (addRoute exampleCompile routerUserDigits ''GET'' ''/user/:id'' (Some 2)) = Some (ErrParamHasReg '':id'')"
    by code_simp+
  from mixing_kinds_conflict [where cmp = exampleCompile and m = "''GET''" and pre = "[''user'']"
      and h = 1 and h' = "Some 2" and r = newRouter and pth = "''/user/:id''" and ?r1.0 = routerUserId and s = "'':id''"
      and qth = "''/user/*''" and u = "''*''",
      THEN conjunct2, THEN conjunct2, THEN conjunct2, THEN conjunct2, THEN conjunct2, THEN conjunct2] ok sg k ev(1)
  have b1: "addRoute exampleCompile routerUserId ''GET'' ''/user/*'' (Some 2) = (routerUserId, Some ErrStarHasParam)"
    by auto
  from mixing_kinds_conflict [where cmp = exampleCompile and m = "''GET''" and pre = "[''user'']"
      and h = 1 and h' = "Some 2" and r = newRouter and pth = "''/user/*''" and ?r1.0 = routerUserStar and s = "''*''"
      and qth = "''/user/:id''" and u = "'':id''",
      THEN conjunct2, THEN conjunct2, THEN conjunct2, THEN conjunct2, THEN conjunct2, THEN conjunct2] ok sg k ev(2)
  have b2: "addRoute exampleCompile routerUserStar ''GET'' ''/user/:id'' (Some 2) =
     (routerUserStar, Some (ErrParamHasStar '':id''))"
    by auto
  from mixing_kinds_conflict [where cmp = exampleCompile and m = "''GET''" and pre = "[''user'']"
      and h = 1 and h' = "Some 2" and r = newRouter and pth = "''/user/:id(^[0-9]+$)''" and ?r1.0 = routerUserDigits
      and s = "'':id(^[0-9]+$)''" and qth = "''/user/:id''" and u = "'':id''",
      THEN conjunct2, THEN conjunct2, THEN conjunct2, THEN conjunct2, THEN conjunct2, THEN conjunct2] ok sg k ev(3)
  have b3: "addRoute exampleCompile routerUserDigits ''GET'' ''/user/:id'' (Some 2) =
     (routerUserDigits, Some (ErrParamHasReg '':id''))"
    by auto
  from mixing_kinds_conflict [where cmp = exampleCompile and n = nodeWithId, THEN conjunct1] n1
  have c1: "childOrCreate exampleCompile nodeWithId ''*'' = Inl ErrStarHasParam" by simp
  from mixing_kinds_conflict [where cmp = exampleCompile and n = nodeWithDigits, THEN conjunct1] n1
  have c2: "childOrCreate exampleCompile nodeWithDigits ''*'' = Inl ErrStarHasReg" by simp
  from mixing_kinds_conflict [where cmp = exampleCompile and n = nodeWithStar and t = "'':id''", THEN conjunct2, THEN conjunct1] n1 k
  have c3: "childOrCreate exampleCompile nodeWithStar '':id'' = Inl (ErrParamHasStar '':id'')" by simp
  from mixing_kinds_conflict [where cmp = exampleCompile and n = nodeWithStar and t = "'':id(^[0-9]+$)''", THEN conjunct2, THEN conjunct2, THEN conjunct1] n1 k
  have c4: "childOrCreate exampleCompile nodeWithStar '':id(^[0-9]+$)'' = Inl (ErrRegHasStar '':id(^[0-9]+$)'')"
    by simp
  from mixing_kinds_conflict [where cmp = exampleCompile and n = nodeWithId and t = "'':id(^[0-9]+$)''", THEN conjunct2, THEN conjunct2, THEN conjunct2,
      THEN conjunct1] n1 k
  have c5: "childOrCreate exampleCompile nodeWithId '':id(^[0-9]+$)'' = Inl (ErrRegHasParam '':id(^[0-9]+$)'')"
    by simp
  from mixing_kinds_conflict [where cmp = exampleCompile and n = nodeWithDigits and t = "'':id''", THEN conjunct2, THEN conjunct2, THEN conjunct2,
      THEN conjunct2, THEN conjunct1] n1 k
  have c6: "childOrCreate exampleCompile nodeWithDigits '':id'' = Inl (ErrParamHasReg '':id'')"
    by simp
  from ok b1 b2 b3 c1 c2 c3 c4 c5 c6 show ?thesis by simp
qed

section \<open>Invariants of registration\<close>

lemma allNodes_kids: "allNodes P n \<longleftrightarrow> P n \<and> (\<forall>x \<in> kids n. allNodes P x)"
  by (cases n) (auto simp: kids_def childrenList_def list_all_iff split: option.splits)

lemma kids_set_handler [simp]: "kids (set_handler n h) = kids n"
  by (simp add: kids_def)

lemma set_update_subset: "set (AList.update k v al) \<subseteq> insert (k, v) (set al)"
  by (induction al) auto

lemma kids_setChild: "kids (setChild n p c) \<subseteq> insert c (kids n)"
proof -
  have "snd ` set (AList.update p c (childrenList n)) \<subseteq> insert c (snd ` set (childrenList n))"
    using set_update_subset [of p c "childrenList n"] by force
  then show ?thesis
    by (auto simp: kids_def setChild_def)
qed

lemma childSlot_kids: "childSlot n p = Some c \<Longrightarrow> c \<in> kids n"
  by (auto simp: childSlot_def kids_def split: if_splits dest!: map_of_SomeD intro: rev_image_eqI)

lemma childOrCreate_new:
  assumes "childOrCreate cmp n p = Inr (n', c)" and "childSlot n p = None"
  shows "isBare c" and "n' = setChild n p c"
proof -
  from assms have "p \<noteq> []" by (auto dest: childOrCreate_nonempty)
  then have "isBare c \<and> n' = setChild n p c"
  proof (cases p rule: seg_cases)
    case star
    with assms show ?thesis
      by (auto simp: childOrCreate_star childSlot_simps setChild_simps isBare_def newNode_def
          childrenList_def split: option.splits if_splits)
  next
    case reg
    with assms show ?thesis
      by (auto simp: childOrCreate_reg childSlot_simps setChild_simps isBare_def childrenList_def
          split: option.splits if_splits)
  next
    case param
    with assms show ?thesis
      by (auto simp: childOrCreate_param childSlot_simps setChild_simps isBare_def childrenList_def
          split: option.splits if_splits)
  next
    case static
    with assms show ?thesis
      by (auto simp: childOrCreate_static childSlot_simps setChild_simps isBare_def newNode_def
          childrenList_def split: option.splits if_splits)
  qed
  then show "isBare c" and "n' = setChild n p c" by simp_all
qed

lemma kids_bare: "isBare c \<Longrightarrow> kids c = {}"
  by (simp add: isBare_def kids_def)

lemma childOrCreate_cases:
  assumes "childOrCreate cmp n p = Inr (n', c)"
  obtains (old) "childSlot n p = Some c" "kids n' = kids n"
  | (new) "childSlot n p = None" "isBare c" "n' = setChild n p c"
proof (cases "childSlot n p")
  case None
  with childOrCreate_new [OF assms] new show thesis by blast
next
  case (Some c0)
  from childOrCreate_existing [OF assms Some] have c: "c = c0" by simp
  from assms have "p \<noteq> []" by (auto dest: childOrCreate_nonempty)
  then have "kids n' = kids n"
  proof (cases p rule: seg_cases)
    case star
    with assms Some show ?thesis
      by (auto simp: childOrCreate_star childSlot_simps split: option.splits if_splits)
  next
    case reg
    with assms Some show ?thesis
      by (auto simp: childOrCreate_reg childSlot_simps split: option.splits if_splits)
  next
    case param
    with assms Some show ?thesis
      by (auto simp: childOrCreate_param childSlot_simps split: option.splits if_splits)
  next
    case static
    with assms Some have "n' = set_children n (Some (childrenList n))"
      by (auto simp: childOrCreate_static childSlot_simps)
    then show ?thesis by (simp add: kids_def)
  qed
  with Some c old show thesis by blast
qed

lemma addSegs_allNodes:
  assumes hand: "\<And>n h. P n \<Longrightarrow> P (set_handler n h)"
    and step: "\<And>n p n' c c'. P n \<Longrightarrow> childOrCreate cmp n p = Inr (n', c) \<Longrightarrow>
                typ' c' = typ' c \<Longrightarrow> path c' = path c \<Longrightarrow> paramName c' = paramName c \<Longrightarrow>
                regExpr c' = regExpr c \<Longrightarrow> P (setChild n' p c')"
    and new: "\<And>n p n' c. childOrCreate cmp n p = Inr (n', c) \<Longrightarrow> childSlot n p = None \<Longrightarrow> P c"
  shows "allNodes P n \<Longrightarrow> allNodes P (fst (addSegs cmp n ss pth h))"
proof (induction ss arbitrary: n)
  case Nil
  then show ?case
    using hand [of n h] by (auto simp: allNodes_kids [of P "set_handler n h"] allNodes_kids [of P n])
next
  case (Cons s ss)
  note IH = Cons.IH and inv = Cons.prems
  show ?case
  proof (cases "s = []")
    case True
    with inv show ?thesis by simp
  next
    case s: False
    show ?thesis
    proof (cases "childOrCreate cmp n s")
      case (Inl e)
      with inv s show ?thesis by simp
    next
      case (Inr x)
      then obtain n' c where coc: "childOrCreate cmp n s = Inr (n', c)" by (cases x) auto
      obtain c' e where rec: "addSegs cmp c ss pth h = (c', e)" by (cases "addSegs cmp c ss pth h")
      have res: "fst (addSegs cmp n (s # ss) pth h) = setChild n' s c'"
        using s coc rec by simp
      from inv have Pn: "P n" and kn: "\<forall>x \<in> kids n. allNodes P x"
        by (simp_all add: allNodes_kids [of P n])
      have "allNodes P c \<and> (\<forall>x \<in> kids n'. allNodes P x)"
        using coc
      proof (cases rule: childOrCreate_cases)
        case old
        with kn childSlot_kids [of n s c] show ?thesis
          by auto
      next
        case new
        from new(2) assms(3) [OF coc new(1)] have c: "allNodes P c"
          by (simp add: allNodes_kids [of P c] kids_bare)
        from kids_setChild [of n s c] kn c new(3)
        have "\<forall>x \<in> kids n'. allNodes P x" by auto
        with c show ?thesis by simp
      qed
      then have c: "allNodes P c" and kn': "\<forall>x \<in> kids n'. allNodes P x" by simp_all
      from IH [OF c] rec have c': "allNodes P c'" by simp
      from step [OF Pn coc addSegs_fields [OF rec]] have "P (setChild n' s c')" .
      moreover from kids_setChild [of n' s c'] kn' c'
      have "\<forall>x \<in> kids (setChild n' s c'). allNodes P x" by auto
      ultimately show ?thesis
        unfolding res by (simp add: allNodes_kids [of P "setChild n' s c'"])
    qed
  qed
qed

lemma addRoute_allTrees:
  assumes hand: "\<And>n h. P n \<Longrightarrow> P (set_handler n h)"
    and step: "\<And>n p n' c c'. P n \<Longrightarrow> childOrCreate cmp n p = Inr (n', c) \<Longrightarrow>
                typ' c' = typ' c \<Longrightarrow> path c' = path c \<Longrightarrow> paramName c' = paramName c \<Longrightarrow>
                regExpr c' = regExpr c \<Longrightarrow> P (setChild n' p c')"
    and new: "\<And>n p n' c. childOrCreate cmp n p = Inr (n', c) \<Longrightarrow> childSlot n p = None \<Longrightarrow> P c"
    and root: "P (Node nodeTypeStatic ''/'' None None None None [] None None)"
    and inv: "allTrees P r"
  shows "allTrees P (fst (addRoute cmp r m p h))"
proof -
  define root where "root = (case trees r m of Some n \<Rightarrow> n
             | None \<Rightarrow> Node nodeTypeStatic ''/'' None None None None [] None None)"
  have r0: "allNodes P root"
  proof (cases "trees r m")
    case None
    with root show ?thesis by (simp add: root_def)
  next
    case (Some n)
    with inv show ?thesis by (auto simp: root_def allTrees_def ran_def)
  qed
  have upd: "allTrees P (r\<lparr>trees := (trees r)(m \<mapsto> x)\<rparr>)" if "allNodes P x" for x
    using inv that by (auto simp: allTrees_def ran_def split: if_splits)
  have a: "allNodes P (fst (addSegs cmp root ss p h))" for ss
    apply (rule addSegs_allNodes [where P = P and cmp = cmp])
       apply (erule hand)
      apply (erule (5) step)
     apply (erule (1) new)
    apply (rule r0)
    done
  have b: "allNodes P (set_handler root h)"
    using r0 hand [of root h]
    by (simp add: allNodes_kids [of P "set_handler root h"] allNodes_kids [of P root])
  show ?thesis
    unfolding addRoute_def root_def [symmetric] Let_def
    using inv upd [OF r0] upd [OF b] upd [OF a [of "splitSlash (tl p)"]]
    by (auto split: prod.splits)
qed

lemma exclusive_step:
  assumes "exclusive n" and "childOrCreate cmp n p = Inr (n', c)"
  shows "exclusive n'" and "exclusive (setChild n' p c')"
proof -
  from assms have ne: "p \<noteq> []" by (auto dest: childOrCreate_nonempty)
  then have "exclusive n' \<and> exclusive (setChild n' p c')"
  proof (cases p rule: seg_cases)
    case star
    with assms show ?thesis
      by (auto simp: childOrCreate_star setChild_simps exclusive_def split: option.splits if_splits)
  next
    case reg
    with assms show ?thesis
      by (auto simp: childOrCreate_reg setChild_simps exclusive_def split: option.splits if_splits)
  next
    case param
    with assms show ?thesis
      by (auto simp: childOrCreate_param setChild_simps exclusive_def split: option.splits if_splits)
  next
    case static
    with assms show ?thesis
      by (auto simp: childOrCreate_static setChild_simps exclusive_def split: option.splits if_splits)
  qed
  then show "exclusive n'" and "exclusive (setChild n' p c')" by simp_all
qed

lemma exclusive_bare: "isBare c \<Longrightarrow> exclusive c"
  by (simp add: isBare_def exclusive_def)

lemma exclusive_set_handler: "exclusive n \<Longrightarrow> exclusive (set_handler n h)"
  by (simp add: exclusive_def)

lemma addRoute_exclusive:
  "allTrees exclusive r \<Longrightarrow> allTrees exclusive (fst (addRoute cmp r m p h))"
  apply (rule addRoute_allTrees [where P = exclusive])
      apply (erule exclusive_set_handler)
     apply (erule (1) exclusive_step(2))
    apply (rule exclusive_bare)
    apply (erule (1) childOrCreate_new(1))
   apply (simp add: exclusive_def)
  apply assumption
  done

lemma allTrees_newRouter: "allTrees P newRouter"
  by (simp add: allTrees_def newRouter_def)

lemma reachable_exclusive: "reachable cmp r \<Longrightarrow> allTrees exclusive r"
  by (induction rule: reachable.induct) (simp_all add: allTrees_newRouter addRoute_exclusive)

lemma list_all_update:
  "list_all Q al \<Longrightarrow> Q (k, v) \<Longrightarrow> list_all Q (AList.update k v al)"
  using set_update_subset [of k v al] by (auto simp: list_all_iff)

lemma nodeInv_step:
  assumes inv: "nodeInv cmp n" and coc: "childOrCreate cmp n p = Inr (n', c)"
    and f: "typ' c' = typ' c" "path c' = path c" "paramName c' = paramName c" "regExpr c' = regExpr c"
  shows "nodeInv cmp (setChild n' p c')"
proof -
  from coc have ne: "p \<noteq> []" by (auto dest: childOrCreate_nonempty)
  from inv have ex: "exclusive n" by (rule nodeInv_exclusive)
  note e = exclusive_step(2) [OF ex coc, of c']
  from ne show ?thesis
  proof (cases p rule: seg_cases)
    case star
    with inv coc f e show ?thesis
      by (auto simp: nodeInv_def childOrCreate_star setChild_simps newNode_def
          split: option.splits if_splits)
  next
    case reg
    with inv coc f e show ?thesis
      by (auto simp: nodeInv_def childOrCreate_reg setChild_simps
          split: option.splits if_splits)
  next
    case param
    with inv coc f e show ?thesis
      by (auto simp: nodeInv_def childOrCreate_param setChild_simps
          split: option.splits if_splits)
  next
    case static
    have st: "childSlot n' p = Some c" using coc by (rule childOrCreate_slot)
    show ?thesis
    proof (cases "map_of (childrenList n) p")
      case None
      with static coc have n': "n' = set_children n (Some (AList.update p c (childrenList n)))"
        and c: "c = newNode p nodeTypeStatic"
        by (auto simp: childOrCreate_static)
      from inv have "list_all (\<lambda>kc. isStaticSeg (fst kc) \<and> path (snd kc) = fst kc \<and>
          typ' (snd kc) = nodeTypeStatic) (childrenList n)"
        by (simp add: nodeInv_def)
      then have "list_all (\<lambda>kc. isStaticSeg (fst kc) \<and> path (snd kc) = fst kc \<and>
          typ' (snd kc) = nodeTypeStatic) (AList.update p c' (childrenList n))"
        using static f c by (intro list_all_update) (simp_all add: newNode_def)
      with inv e static show ?thesis
        by (simp add: nodeInv_def setChild_simps n')
    next
      case (Some c0)
      with static coc have n': "n' = set_children n (Some (childrenList n))" and c: "c = c0"
        by (auto simp: childOrCreate_static)
      from inv have l: "list_all (\<lambda>kc. isStaticSeg (fst kc) \<and> path (snd kc) = fst kc \<and>
          typ' (snd kc) = nodeTypeStatic) (childrenList n)"
        by (simp add: nodeInv_def)
      from nodeInv_static [OF inv Some] have "path c0 = p" "typ' c0 = nodeTypeStatic" by simp_all
      with l have "list_all (\<lambda>kc. isStaticSeg (fst kc) \<and> path (snd kc) = fst kc \<and>
          typ' (snd kc) = nodeTypeStatic) (AList.update p c' (childrenList n))"
        using static f c by (intro list_all_update) simp_all
      with inv e static show ?thesis
        by (simp add: nodeInv_def setChild_simps n')
    qed
  qed
qed

lemma nodeInv_bare: "isBare c \<Longrightarrow> nodeInv cmp c"
  by (simp add: isBare_def nodeInv_def exclusive_def)

lemma nodeInv_set_handler: "nodeInv cmp n \<Longrightarrow> nodeInv cmp (set_handler n h)"
  by (simp add: nodeInv_def exclusive_def)

lemma addRoute_nodeInv:
  "allTrees (nodeInv cmp) r \<Longrightarrow> allTrees (nodeInv cmp) (fst (addRoute cmp r m p h))"
  apply (rule addRoute_allTrees [where P = "nodeInv cmp"])
      apply (erule nodeInv_set_handler)
     apply (erule (5) nodeInv_step)
    apply (rule nodeInv_bare)
    apply (erule (1) childOrCreate_new(1))
   apply (simp add: nodeInv_def exclusive_def childrenList_def)
  apply assumption
  done

lemma reachable_nodeInv: "reachable cmp r \<Longrightarrow> allTrees (nodeInv cmp) r"
  by (induction rule: reachable.induct) (simp_all add: allTrees_newRouter addRoute_nodeInv)

text \<open>
  Claim C4. In every router that calls of \<open>addRoute\<close> produce from the empty router, every
  node of every method's tree has at most one of its parameter, regex and wildcard child;
  every call of \<open>addRoute\<close>, successful or not, keeps this true of all trees, and every
  successful \<open>childOrCreate\<close> keeps it true of its node. Static children do not take
  part: for a static segment \<open>childOrCreate\<close> succeeds at every node and leaves the three
  special children as they are.
\<close>

theorem exclusivity_invariant:
  "(reachable cmp r \<longrightarrow> allTrees exclusive r) \<and>
   (allTrees exclusive r \<longrightarrow> allTrees exclusive (fst (addRoute cmp r m p h))) \<and>
   (exclusive n \<and> childOrCreate cmp n s = Inr (n', c) \<longrightarrow> exclusive n') \<and>
   (isStaticSeg s \<longrightarrow>
      (\<exists>n' c. childOrCreate cmp n s = Inr (n', c) \<and> starChild n' = starChild n \<and>
         paramChild n' = paramChild n \<and> regChild n' = regChild n))"
proof (intro conjI impI)
  assume "isStaticSeg s"
  then show "\<exists>n' c. childOrCreate cmp n s = Inr (n', c) \<and> starChild n' = starChild n \<and>
         paramChild n' = paramChild n \<and> regChild n' = regChild n"
    by (auto simp: childOrCreate_static split: option.splits)
qed (auto intro: reachable_exclusive addRoute_exclusive exclusive_step(1))

theorem exclusivity_invariant_witness:
  "reachable exampleCompile routerUserId \<and> allTrees exclusive routerUserId \<and>
   allTrees exclusive (fst (addRoute exampleCompile routerUserId ''GET'' ''/user/*'' (Some 2))) \<and>
   exclusive nodeWithId \<and> isStaticSeg ''a'' \<and>
   childOrCreate exampleCompile nodeWithId ''a'' =
     Inr (set_children nodeWithId (Some [(''a'', newNode ''a'' nodeTypeStatic)]), newNode ''a'' nodeTypeStatic) \<and>
   exclusive (set_children nodeWithId (Some [(''a'', newNode ''a'' nodeTypeStatic)])) \<and>
   paramChild (set_children nodeWithId (Some [(''a'', newNode ''a'' nodeTypeStatic)])) = paramChild nodeWithId"
proof -
  have re: "reachable exampleCompile routerUserId"
    unfolding routerUserId_def by (rule reachable_add) (rule reachable_new)
  note T = exclusivity_invariant [where cmp = exampleCompile and r = routerUserId and m = "''GET''"
      and p = "''/user/*''" and h = "Some 2" and n = nodeWithId and s = "''a''"
      and n' = "set_children nodeWithId (Some [(''a'', newNode ''a'' nodeTypeStatic)])"
      and c = "newNode ''a'' nodeTypeStatic"]
  have ex: "exclusive nodeWithId" and st: "isStaticSeg ''a''" by code_simp+
  have coc: "childOrCreate exampleCompile nodeWithId ''a'' =
     Inr (set_children nodeWithId (Some [(''a'', newNode ''a'' nodeTypeStatic)]), newNode ''a'' nodeTypeStatic)"
    by code_simp
  from T re have a: "allTrees exclusive routerUserId" by blast
  with T have b: "allTrees exclusive (fst (addRoute exampleCompile routerUserId ''GET'' ''/user/*'' (Some 2)))"
    by blast
  from T ex coc have c: "exclusive (set_children nodeWithId (Some [(''a'', newNode ''a'' nodeTypeStatic)]))"
    by blast
  from re a b ex st coc c show ?thesis by simp
qed

section \<open>Looking up a registered path\<close>

lemma nodeInv_no_static:
  assumes "nodeInv cmp n" and "\<not> isStaticSeg s"
  shows "map_of (childrenList n) s = None"
proof (cases "map_of (childrenList n) s")
  case (Some c)
  from nodeInv_static [OF assms(1) Some] assms(2) show ?thesis by simp
qed simp

lemma childOrCreate_child_inv:
  assumes coc: "childOrCreate cmp n p = Inr (n', c)" and inv: "allNodes (nodeInv cmp) n"
  shows "allNodes (nodeInv cmp) c"
  using coc
proof (cases rule: childOrCreate_cases)
  case old
  with inv childSlot_kids [of n p c] show ?thesis by (auto simp: allNodes_kids [of _ n])
next
  case new
  then show ?thesis by (simp add: allNodes_kids [of _ c] kids_bare nodeInv_bare)
qed

lemma findSegs_step:
  assumes inv: "nodeInv cmp n" and coc: "childOrCreate cmp n s = Inr (n', c)"
    and f: "typ' c' = typ' c" "path c' = path c" "paramName c' = paramName c" "regExpr c' = regExpr c"
    and sm: "isRegPath s \<longrightarrow> (case cmp (regExprText s) of None \<Rightarrow> False | Some re \<Rightarrow> mt re s)"
  shows "\<exists>ps'. findSegs mt (setChild n' s c') (s # ss) ps = findSegs mt c' ss ps'"
proof -
  let ?n1 = "setChild n' s c'"
  from coc have ne: "s \<noteq> []" by (auto dest: childOrCreate_nonempty)
  have inv1: "nodeInv cmp ?n1" using inv coc f by (rule nodeInv_step)
  note fc = special_child_facts [OF coc f(2) refl]
  from ne show ?thesis
  proof (cases s rule: seg_cases)
    case static
    then have "map_of (childrenList ?n1) s = childSlot ?n1 s"
      by (simp add: childSlot_simps del: childSlot_setChild)
    then have "map_of (childrenList ?n1) s = Some c'" by simp
    then show ?thesis by auto
  next
    case star
    then have ns: "map_of (childrenList ?n1) s = None"
      using nodeInv_no_static [OF inv1, of s] seg_disjoint(6) by simp
    from fc(1) [OF star] have st: "starChild ?n1 = Some c'" .
    with nodeInv_exclusive [OF inv1] have "regChild ?n1 = None" "paramChild ?n1 = None"
      by (auto simp: exclusive_def)
    with ns st show ?thesis by (auto simp: regMatch_def)
  next
    case param
    then have ns: "map_of (childrenList ?n1) s = None"
      using nodeInv_no_static [OF inv1, of s] seg_disjoint(2) by simp
    from fc(3) [OF param] ns show ?thesis by (auto simp: regMatch_def)
  next
    case reg
    then have ns: "map_of (childrenList ?n1) s = None"
      using nodeInv_no_static [OF inv1, of s] seg_disjoint(1) by simp
    from fc(2) [OF reg] have rc: "regChild ?n1 = Some c'" and pc: "path c' = s" by simp_all
    from nodeInv_regChild [OF inv1 rc] pc have "regExpr c' = cmp (regExprText s)" by simp
    with sm reg obtain re where "regExpr c' = Some re" "mt re s"
      by (auto split: option.splits)
    with rc have "regMatch mt ?n1 s = Some c'" by (simp add: regMatch_def)
    with ns show ?thesis by auto
  qed
qed

lemma findSegs_addSegs:
  "allNodes (nodeInv cmp) n \<Longrightarrow> addSegs cmp n ss pth (Some h) = (n1, None) \<Longrightarrow>
   selfMatching cmp mt ss \<Longrightarrow>
   \<exists>mi. findSegs mt n1 ss ps = Some mi \<and> handler (matched mi) = Some h"
proof (induction ss arbitrary: n n1 ps)
  case Nil
  then show ?case by (auto split: if_splits)
next
  case (Cons s ss)
  from Cons.prems(2) obtain n' c c' where s: "s \<noteq> []"
    and coc: "childOrCreate cmp n s = Inr (n', c)"
    and rec: "addSegs cmp c ss pth (Some h) = (c', None)"
    and n1: "n1 = setChild n' s c'"
    by (auto split: if_splits sum.splits prod.splits)
  from Cons.prems(3) have sm: "isRegPath s \<longrightarrow> (case cmp (regExprText s) of None \<Rightarrow> False | Some re \<Rightarrow> mt re s)"
    and sms: "selfMatching cmp mt ss"
    by (simp_all add: selfMatching_def)
  from Cons.prems(1) have inv: "nodeInv cmp n" by (simp add: allNodes_kids [of _ n])
  from findSegs_step [where mt = mt and ss = ss and ps = ps, OF inv coc addSegs_fields [OF rec] sm]
  obtain ps' where "findSegs mt n1 (s # ss) ps = findSegs mt c' ss ps'"
    unfolding n1 by blast
  moreover from Cons.IH [OF childOrCreate_child_inv [OF coc Cons.prems(1)] rec sms, of ps']
  obtain mi where "findSegs mt c' ss ps' = Some mi" "handler (matched mi) = Some h" by blast
  ultimately show ?case by simp
qed

lemma addRoute_validPath:
  assumes "addRoute cmp r m p h = (r1, None)"
  shows "validPath p"
proof -
  have ne: "[] \<notin> set ss" if "addSegs cmp n ss pth h = (n1, None)" for n ss pth n1
    using that
  proof (induction ss arbitrary: n n1)
    case Nil
    then show ?case by simp
  next
    case (Cons s ss)
    then show ?case by (auto split: if_splits sum.splits prod.splits)
  qed
  from assms obtain root root1 where p: "p \<noteq> []" "hd p = CHR ''/''" "p = ''/'' \<or> last p \<noteq> CHR ''/''"
    and seg: "addSegs cmp root (segsOf p) p h = (root1, None)"
    by (rule addRoute_success)
  from ne [OF seg] p show ?thesis by (auto simp: validPath_def segsOf_def)
qed

text \<open>
  Claim C1, amended. In a router that calls of \<open>addRoute\<close> produce from the empty router,
  after a successful \<open>addRoute\<close> of a path for a method with a handler that is not
  nil, the path is valid and \<open>findRoute\<close> for that method and path finds a node that carries the handler,
  provided every segment of the path that has the shape of a regular expression has an
  expression that compiles to a pattern matching the segment's own text (in particular when
  the path has no such segment). The matching of \<open>findRoute\<close> is the one of the
  specification, of which route.go has the placeholder only.
\<close>

theorem findRoute_registered:
  assumes "reachable cmp r" and "addRoute cmp r m p (Some h) = (r1, None)"
    and "selfMatching cmp mt (segsOf p)"
  shows "validPath p \<and> (\<exists>mi. findRoute mt r1 m p = Some mi \<and> handler (matched mi) = Some h)"
proof -
  from assms(2) obtain root root1
    where root: "root = (case trees r m of Some n \<Rightarrow> n
             | None \<Rightarrow> Node nodeTypeStatic ''/'' None None None None [] None None)"
    and seg: "addSegs cmp root (segsOf p) p (Some h) = (root1, None)"
    and r1: "r1 = r\<lparr>trees := (trees r)(m \<mapsto> root1)\<rparr>"
    by (rule addRoute_success)
  have inv: "allNodes (nodeInv cmp) root"
  proof (cases "trees r m")
    case None
    then show ?thesis by (simp add: root nodeInv_def exclusive_def childrenList_def)
  next
    case (Some n)
    with reachable_nodeInv [OF assms(1)] show ?thesis
      by (auto simp: root allTrees_def ran_def)
  qed
  from findSegs_addSegs [OF inv seg assms(3), of Map.empty]
  obtain mi where mi: "findSegs mt root1 (segsOf p) Map.empty = Some mi" "handler (matched mi) = Some h"
    by blast
  have "findRoute mt r1 m p = Some mi"
  proof (cases "p = ''/''")
    case True
    with mi show ?thesis by (auto simp: findRoute_def r1 segsOf_def split: if_splits)
  next
    case False
    with mi show ?thesis by (simp add: findRoute_def r1 segsOf_def)
  qed
  with mi(2) addRoute_validPath [OF assms(2)] show ?thesis by blast
qed

theorem findRoute_registered_witness:
  "reachable exampleCompile routerUserId \<and>
   addRoute exampleCompile routerUserId ''GET'' ''/user/:id/:rest(.*)'' (Some 2) = (routerAnyText, None) \<and>
   selfMatching exampleCompile exampleMatch (segsOf ''/user/:id/:rest(.*)'') \<and>
   validPath ''/user/:id/:rest(.*)'' \<and>
   (\<exists>mi. findRoute exampleMatch routerAnyText ''GET'' ''/user/:id/:rest(.*)'' = Some mi \<and>
      handler (matched mi) = Some 2)"
proof -
  have re: "reachable exampleCompile routerUserId"
    unfolding routerUserId_def by (rule reachable_add) (rule reachable_new)
  have "snd (addRoute exampleCompile routerUserId ''GET'' ''/user/:id/:rest(.*)'' (Some 2)) = None"
    by code_simp
  then have ok: "addRoute exampleCompile routerUserId ''GET'' ''/user/:id/:rest(.*)'' (Some 2)
      = (routerAnyText, None)"
    by (simp add: routerAnyText_def prod_eq_iff)
  have sm: "selfMatching exampleCompile exampleMatch (segsOf ''/user/:id/:rest(.*)'')"
    by code_simp
  from findRoute_registered [OF re ok sm] re ok sm show ?thesis by simp
qed

text \<open>The claim as it is written fails for the route \<open>/a/:id(^[0-9]+$)\<close>: the path is
  valid and its registration succeeds, but its last segment is not a string of digits, so
  the regex child does not match it and nothing else is there to match.\<close>

theorem findRoute_registered_counterexample:
  "validPath ''/a/:id(^[0-9]+$)'' \<and>
   addRoute exampleCompile newRouter ''GET'' ''/a/:id(^[0-9]+$)'' (Some 1) = (routerDigits, None) \<and>
   findRoute exampleMatch routerDigits ''GET'' ''/a/:id(^[0-9]+$)'' = None"
proof -
  have "snd (addRoute exampleCompile newRouter ''GET'' ''/a/:id(^[0-9]+$)'' (Some (1::nat))) = None"
    by code_simp
  then have ok: "addRoute exampleCompile newRouter ''GET'' ''/a/:id(^[0-9]+$)'' (Some 1) = (routerDigits, None)"
    by (simp add: routerDigits_def prod_eq_iff)
  have v: "validPath ''/a/:id(^[0-9]+$)''" by code_simp
  have "Option.is_none (findRoute exampleMatch routerDigits ''GET'' ''/a/:id(^[0-9]+$)'')"
    by code_simp
  then have "findRoute exampleMatch routerDigits ''GET'' ''/a/:id(^[0-9]+$)'' = None"
    by (simp add: Option.is_none_def)
  with ok v show ?thesis by simp
qed

section \<open>What a failed registration leaves behind\<close>

lemma handlerAt_below:
  "handlerAt r m p = (case trees r m of None \<Rightarrow> None | Some root \<Rightarrow> handlerBelow root (segsOf p))"
  by (simp add: handlerAt_def handlerBelow_def split: option.splits)

lemma childSlot_bare: "isBare c \<Longrightarrow> childSlot c q = None"
  by (simp add: isBare_def childSlot_def)

lemma handlerBelow_bare: "isBare c \<Longrightarrow> handlerBelow c qs = None"
  by (cases qs) (simp_all add: handlerBelow_def childSlot_bare, simp add: isBare_def)

lemma handlerBelow_Cons:
  "handlerBelow n (q # qs) = (case childSlot n q of None \<Rightarrow> None | Some c \<Rightarrow> handlerBelow c qs)"
  by (simp add: handlerBelow_def split: option.splits)

lemma addSegs_fail_keeps:
  "addSegs cmp n ss pth h = (n1, Some e) \<Longrightarrow> handlerBelow n1 qs = handlerBelow n qs"
proof (induction ss arbitrary: n n1 qs)
  case Nil
  then show ?case by (auto split: if_splits)
next
  case (Cons s ss)
  note IH = Cons.IH and prems = Cons.prems
  show ?case
  proof (cases "s = []")
    case True
    with prems show ?thesis by simp
  next
    case s: False
    show ?thesis
    proof (cases "childOrCreate cmp n s")
      case (Inl e')
      with prems s show ?thesis by simp
    next
      case (Inr x)
      then obtain n' c where coc: "childOrCreate cmp n s = Inr (n', c)" by (cases x) auto
      with prems s obtain c' where rec: "addSegs cmp c ss pth h = (c', Some e)"
        and n1: "n1 = setChild n' s c'"
        by (auto split: prod.splits)
      note below = IH [OF rec]
      show ?thesis
      proof (cases qs)
        case Nil
        with childOrCreate_fields(3) [OF coc] show ?thesis by (simp add: n1 handlerBelow_def)
      next
        case (Cons q qs')
        from coc show ?thesis
        proof (cases rule: childOrCreate_cases)
          case old
          from childOrCreate_existing [OF coc old(1)] have same: "childSlot n' = childSlot n" by simp
          from childSlot_setChild_other [of n' s c' q] show ?thesis
          proof
            assume "childSlot (setChild n' s c') q = childSlot n' q"
            then show ?thesis by (simp add: n1 Cons handlerBelow_Cons same)
          next
            assume "childSlot (setChild n' s c') q = Some c' \<and> childSlot n' q = childSlot n' s"
            with old(1) same below [of qs'] show ?thesis
              by (simp add: n1 Cons handlerBelow_Cons)
          qed
        next
          case new
          have n1': "n1 = setChild n s c'" by (simp add: n1 new(3))
          from childSlot_setChild_other [of n s c' q] show ?thesis
          proof
            assume "childSlot (setChild n s c') q = childSlot n q"
            then show ?thesis by (simp add: n1' Cons handlerBelow_Cons)
          next
            assume "childSlot (setChild n s c') q = Some c' \<and> childSlot n q = childSlot n s"
            with new(1) below [of qs'] handlerBelow_bare [OF new(2), of qs'] show ?thesis
              by (simp add: n1' Cons handlerBelow_Cons)
          qed
        qed
      qed
    qed
  qed
qed

lemma childOrCreate_error:
  assumes "childOrCreate cmp n p = Inl e"
  shows "isConflictError e \<or> p = [] \<and> e = ErrRuntime"
proof (cases "p = []")
  case True
  with assms show ?thesis by (simp add: childOrCreate_def)
next
  case False
  then show ?thesis
  proof (cases p rule: seg_cases)
    case star
    with assms show ?thesis
      by (auto simp: childOrCreate_star split: option.splits if_splits)
  next
    case reg
    with assms show ?thesis
      by (auto simp: childOrCreate_reg split: option.splits if_splits)
  next
    case param
    with assms show ?thesis
      by (auto simp: childOrCreate_param split: option.splits if_splits)
  next
    case static
    with assms show ?thesis
      by (auto simp: childOrCreate_static split: option.splits if_splits)
  qed
qed

lemma addSegs_empty_prefix:
  "addSegs cmp n ss pth h = (n1, Some (ErrEmptySegment x)) \<Longrightarrow>
   x = pth \<and> nodeAt n1 (takeWhile (\<lambda>s. s \<noteq> []) ss) \<noteq> None"
proof (induction ss arbitrary: n n1)
  case Nil
  then show ?case by (auto split: if_splits)
next
  case (Cons s ss)
  show ?case
  proof (cases "s = []")
    case True
    with Cons.prems show ?thesis by simp
  next
    case s: False
    show ?thesis
    proof (cases "childOrCreate cmp n s")
      case (Inl e)
      with childOrCreate_error [OF Inl] Cons.prems s show ?thesis by auto
    next
      case (Inr y)
      then obtain n' c where coc: "childOrCreate cmp n s = Inr (n', c)" by (cases y) auto
      with Cons.prems s obtain c' where rec: "addSegs cmp c ss pth h = (c', Some (ErrEmptySegment x))"
        and n1: "n1 = setChild n' s c'"
        by (auto split: prod.splits)
      from Cons.IH [OF rec] s show ?thesis by (simp add: n1)
    qed
  qed
qed

lemma nodeAt_append:
  "nodeAt n (xs @ ys) = (case nodeAt n xs of None \<Rightarrow> None | Some u \<Rightarrow> nodeAt u ys)"
  by (induction xs arbitrary: n) (auto split: option.splits)

lemma nodeAt_take: "nodeAt n xs \<noteq> None \<Longrightarrow> nodeAt n (take k xs) \<noteq> None"
  using nodeAt_append [of n "take k xs" "drop k xs"] by (auto split: option.splits)

lemma childOrCreate_existing_same:
  assumes "childOrCreate cmp n p = Inr (n', c)" and "childSlot n p = Some c0"
  shows "n' = n"
proof -
  from assms have "p \<noteq> []" by (auto dest: childOrCreate_nonempty)
  then show ?thesis
  proof (cases p rule: seg_cases)
    case star
    with assms show ?thesis
      by (auto simp: childOrCreate_star childSlot_simps split: option.splits if_splits)
  next
    case reg
    with assms show ?thesis
      by (auto simp: childOrCreate_reg childSlot_simps split: option.splits if_splits)
  next
    case param
    with assms show ?thesis
      by (auto simp: childOrCreate_param childSlot_simps split: option.splits if_splits)
  next
    case static
    with assms(2) have m: "map_of (childrenList n) p = Some c0" by (simp add: childSlot_simps)
    with assms(1) static have "n' = set_children n (Some (childrenList n))"
      by (auto simp: childOrCreate_static)
    with children_of_lookup [OF m] show ?thesis by (metis set_same(1))
  qed
qed

lemma addSegs_empty_unchanged:
  "addSegs cmp n ss pth h = (n1, Some (ErrEmptySegment x)) \<Longrightarrow>
   nodeAt n (takeWhile (\<lambda>s. s \<noteq> []) ss) \<noteq> None \<Longrightarrow> n1 = n"
proof (induction ss arbitrary: n n1)
  case Nil
  then show ?case by (auto split: if_splits)
next
  case (Cons s ss)
  show ?case
  proof (cases "s = []")
    case True
    with Cons.prems show ?thesis by simp
  next
    case s: False
    show ?thesis
    proof (cases "childOrCreate cmp n s")
      case (Inl e)
      with Cons.prems s show ?thesis by simp
    next
      case (Inr y)
      then obtain n' c where coc: "childOrCreate cmp n s = Inr (n', c)" by (cases y) auto
      with Cons.prems(1) s obtain c' where rec: "addSegs cmp c ss pth h = (c', Some (ErrEmptySegment x))"
        and n1: "n1 = setChild n' s c'"
        by (auto split: prod.splits)
      from Cons.prems(2) s obtain c0 where c0: "childSlot n s = Some c0"
        and at: "nodeAt c0 (takeWhile (\<lambda>s. s \<noteq> []) ss) \<noteq> None"
        by (auto split: option.splits)
      from childOrCreate_existing [OF coc c0] have c: "c = c0" by simp
      from childOrCreate_existing_same [OF coc c0] have n': "n' = n" .
      from Cons.IH [OF rec] at c have "c' = c" by simp
      with c c0 n' show ?thesis by (simp add: n1 setChild_same)
    qed
  qed
qed

text \<open>
  Claim C10, amended. When \<open>addRoute\<close> panics with the empty-segment message, the router
  it leaves behind has a tree for the method, and in that tree a node is reached by the
  segments that precede the first empty one, and by every prefix of them, new nodes being
  created where there were none. No handler is attached anywhere:
  every path leads to the same handler, or to none, as before the call; so the nodes
  created by the call carry none, and if the method had no tree before, no path of it leads
  to a handler. The other methods keep their trees. The router is left as it was exactly
  when the method had a tree in which the segments that precede the first empty one already
  led to a node; in particular it has changed if the method had no tree.
\<close>

theorem addRoute_empty_segment_state:
  assumes "addRoute cmp r m p h = (r1, Some (ErrEmptySegment x))"
  shows "x = p \<and>
    (\<exists>root1. trees r1 m = Some root1 \<and>
       (\<forall>k \<le> length (takeWhile (\<lambda>s. s \<noteq> []) (segsOf p)).
          nodeAt root1 (take k (takeWhile (\<lambda>s. s \<noteq> []) (segsOf p))) \<noteq> None)) \<and>
    (\<forall>m' q. handlerAt r1 m' q = handlerAt r m' q) \<and>
    (\<forall>m'. m' \<noteq> m \<longrightarrow> trees r1 m' = trees r m') \<and>
    (trees r m = None \<longrightarrow> r1 \<noteq> r) \<and>
    (trees r m = None \<longrightarrow> (\<forall>q. handlerAt r1 m q = None)) \<and>
    (r1 = r \<longleftrightarrow>
       (\<exists>root0. trees r m = Some root0 \<and>
          nodeAt root0 (takeWhile (\<lambda>s. s \<noteq> []) (segsOf p)) \<noteq> None))"
proof -
  define root where "root = (case trees r m of Some n \<Rightarrow> n
             | None \<Rightarrow> Node nodeTypeStatic ''/'' None None None None [] None None)"
  from assms have p: "p \<noteq> ''/''"
    by (auto simp: addRoute_def Let_def split: if_splits)
  with assms obtain root1 where seg: "addSegs cmp root (segsOf p) p h = (root1, Some (ErrEmptySegment x))"
    and r1: "r1 = r\<lparr>trees := (trees r)(m \<mapsto> root1)\<rparr>"
    unfolding addRoute_def root_def [symmetric] segsOf_def
    by (auto simp: Let_def split: if_splits prod.splits)
  from addSegs_empty_prefix [OF seg] have x: "x = p"
    and at: "nodeAt root1 (takeWhile (\<lambda>s. s \<noteq> []) (segsOf p)) \<noteq> None" by simp_all
  have t1: "trees r1 m = Some root1" by (simp add: r1)
  have hb: "handlerBelow root1 qs = handlerBelow root qs" for qs
    using seg by (rule addSegs_fail_keeps)
  have h: "handlerAt r1 m' q = handlerAt r m' q" for m' q
  proof (cases "m' = m")
    case False
    then show ?thesis by (simp add: handlerAt_def r1)
  next
    case True
    show ?thesis
    proof (cases "trees r m")
      case None
      then have "isBare root" by (simp add: root_def isBare_def childrenList_def)
      with hb [of "segsOf q"] None True show ?thesis
        by (simp add: handlerAt_below t1 handlerBelow_bare)
    next
      case (Some n)
      with hb [of "segsOf q"] True show ?thesis
        by (simp add: handlerAt_below t1 root_def)
    qed
  qed
  have "r1 \<noteq> r" if "trees r m = None"
  proof
    assume "r1 = r"
    with t1 that show False by simp
  qed
  moreover have "handlerAt r1 m q = None" if "trees r m = None" for q
    using h [of m q] that by (simp add: handlerAt_def)
  moreover have "r1 = r \<longleftrightarrow>
       (\<exists>root0. trees r m = Some root0 \<and>
          nodeAt root0 (takeWhile (\<lambda>s. s \<noteq> []) (segsOf p)) \<noteq> None)"
  proof
    assume "r1 = r"
    with t1 have "trees r m = Some root1" by simp
    with at show "\<exists>root0. trees r m = Some root0 \<and>
          nodeAt root0 (takeWhile (\<lambda>s. s \<noteq> []) (segsOf p)) \<noteq> None" by blast
  next
    assume "\<exists>root0. trees r m = Some root0 \<and>
          nodeAt root0 (takeWhile (\<lambda>s. s \<noteq> []) (segsOf p)) \<noteq> None"
    then obtain root0 where r0: "trees r m = Some root0"
      and a0: "nodeAt root0 (takeWhile (\<lambda>s. s \<noteq> []) (segsOf p)) \<noteq> None" by blast
    from r0 have "root = root0" by (simp add: root_def)
    with addSegs_empty_unchanged [OF seg] a0 have "root1 = root0" by simp
    with r0 show "r1 = r" by (simp add: r1 trees_upd_same)
  qed
  moreover have "nodeAt root1 (take k (takeWhile (\<lambda>s. s \<noteq> []) (segsOf p))) \<noteq> None" for k
    using at by (rule nodeAt_take)
  moreover have "trees r1 m' = trees r m'" if "m' \<noteq> m" for m'
    using that by (simp add: r1)
  ultimately show ?thesis
    using x t1 h by simp
qed

theorem addRoute_empty_segment_state_witness:
  "addRoute exampleCompile newRouter ''GET'' ''/a//b'' (Some 1) =
     (routerBroken, Some (ErrEmptySegment ''/a//b'')) \<and>
   trees routerBroken ''GET'' =
     Some (Node nodeTypeStatic ''/''
            (Some [(''a'', Node nodeTypeStatic ''a'' None None None None [] None None)])
            None None None [] None None) \<and>
   routerBroken \<noteq> newRouter \<and>
   handlerAt routerBroken ''GET'' ''/a'' = None"
proof -
  have "snd (addRoute exampleCompile newRouter ''GET'' ''/a//b'' (Some (1::nat))) =
      Some (ErrEmptySegment ''/a//b'')"
    by code_simp
  then have f: "addRoute exampleCompile newRouter ''GET'' ''/a//b'' (Some 1) =
     (routerBroken, Some (ErrEmptySegment ''/a//b''))"
    by (simp add: routerBroken_def prod_eq_iff)
  have t: "trees routerBroken ''GET'' =
     Some (Node nodeTypeStatic ''/''
            (Some [(''a'', Node nodeTypeStatic ''a'' None None None None [] None None)])
            None None None [] None None)"
    by code_simp
  have n: "trees (newRouter :: (nat, regex) router) ''GET'' = None"
    by (simp add: newRouter_def)
  have h0: "handlerAt (newRouter :: (nat, regex) router) ''GET'' ''/a'' = None"
    by (simp add: handlerAt_def newRouter_def)
  from addRoute_empty_segment_state [OF f] n h0
  have "routerBroken \<noteq> newRouter" "handlerAt routerBroken ''GET'' ''/a'' = None"
    by simp_all
  with f t show ?thesis by simp
qed

text \<open>The claim as it is written fails on the router that has the route \<open>/a\<close>: the
  registration of \<open>/a//b\<close> panics at the empty segment after walking through the node
  of \<open>a\<close>, which exists already; the router is left exactly as it was, and that node
  keeps its handler.\<close>

theorem addRoute_empty_segment_state_counterexample:
  "addRoute exampleCompile routerA ''GET'' ''/a//b'' (Some 1) =
     (routerA, Some (ErrEmptySegment ''/a//b'')) \<and>
   handlerAt routerA ''GET'' ''/a'' = Some 0"
proof -
  let ?rootA = "Node nodeTypeStatic ''/''
      (Some [(''a'', Node nodeTypeStatic ''a'' None (Some 0) None None [] None None)])
      None None None [] None None :: (nat, regex) node"
  have t: "trees routerA ''GET'' = Some ?rootA" by code_simp
  have "addSegs exampleCompile ?rootA (splitSlash (tl ''/a//b'')) ''/a//b'' (Some 1) =
      (?rootA, Some (ErrEmptySegment ''/a//b''))"
    by code_simp
  then have "addRoute exampleCompile routerA ''GET'' ''/a//b'' (Some 1) =
     (routerA, Some (ErrEmptySegment ''/a//b''))"
    by (simp add: addRoute_def t trees_upd_same [OF t])
  moreover have "handlerAt routerA ''GET'' ''/a'' = Some 0" by code_simp
  ultimately show ?thesis by simp
qed

section \<open>Validation of the path\<close>

lemma addSegs_validation:
  "snd (addSegs cmp n ss pth h) = Some e \<Longrightarrow> isValidationError e \<Longrightarrow>
   e = ErrEmptySegment pth \<and> [] \<in> set ss"
proof (induction ss arbitrary: n)
  case Nil
  then show ?case by (auto split: if_splits)
next
  case (Cons s ss)
  show ?case
  proof (cases "s = []")
    case True
    with Cons.prems show ?thesis by simp
  next
    case s: False
    show ?thesis
    proof (cases "childOrCreate cmp n s")
      case (Inl e')
      with childOrCreate_error [OF Inl] Cons.prems s show ?thesis
        by (cases e') auto
    next
      case (Inr y)
      then obtain n' c where coc: "childOrCreate cmp n s = Inr (n', c)" by (cases y) auto
      with Cons.prems s have "snd (addSegs cmp c ss pth h) = Some e"
        by (auto split: prod.splits)
      from Cons.IH [OF this Cons.prems(2)] show ?thesis by simp
    qed
  qed
qed

lemma addSegs_empty_fails:
  "[] \<in> set ss \<Longrightarrow>
   \<exists>e. snd (addSegs cmp n ss pth h) = Some e \<and> (e = ErrEmptySegment pth \<or> isConflictError e)"
proof (induction ss arbitrary: n)
  case Nil
  then show ?case by simp
next
  case (Cons s ss)
  show ?case
  proof (cases "s = []")
    case True
    then show ?thesis by simp
  next
    case s: False
    with Cons.prems have mem: "[] \<in> set ss" by auto
    show ?thesis
    proof (cases "childOrCreate cmp n s")
      case (Inl e')
      with childOrCreate_error [OF Inl] s show ?thesis by auto
    next
      case (Inr y)
      then obtain n' c where coc: "childOrCreate cmp n s = Inr (n', c)" by (cases y) auto
      from Cons.IH [OF mem, of c] coc s show ?thesis
        by (auto split: prod.splits)
    qed
  qed
qed

lemma addSegs_empty_outcome:
  "[] \<in> set ss \<Longrightarrow>
   \<exists>n1 e. addSegs cmp n ss pth h = (n1, Some e) \<and>
     (e = ErrEmptySegment pth \<or>
      isConflictError e \<and>
      (\<exists>k u. k < length (takeWhile (\<lambda>s. s \<noteq> []) ss) \<and> nodeAt n1 (take k ss) = Some u \<and>
         childOrCreate cmp u (ss ! k) = Inl e))"
proof (induction ss arbitrary: n)
  case Nil
  then show ?case by simp
next
  case (Cons s ss)
  show ?case
  proof (cases "s = []")
    case True
    then show ?thesis by simp
  next
    case s: False
    with Cons.prems have mem: "[] \<in> set ss" by auto
    show ?thesis
    proof (cases "childOrCreate cmp n s")
      case (Inl e')
      from childOrCreate_error [OF Inl] s have "isConflictError e'" by simp
      moreover have "0 < length (takeWhile (\<lambda>s. s \<noteq> []) (s # ss))" using s by simp
      moreover have "nodeAt n (take 0 (s # ss)) = Some n" by simp
      moreover have "childOrCreate cmp n ((s # ss) ! 0) = Inl e'" using Inl by simp
      moreover have "addSegs cmp n (s # ss) pth h = (n, Some e')" using Inl s by simp
      ultimately show ?thesis by blast
    next
      case (Inr y)
      then obtain n' c where coc: "childOrCreate cmp n s = Inr (n', c)" by (cases y) auto
      from Cons.IH [OF mem, of c] obtain c' e
        where rec: "addSegs cmp c ss pth h = (c', Some e)"
          and k: "e = ErrEmptySegment pth \<or>
            isConflictError e \<and>
            (\<exists>k u. k < length (takeWhile (\<lambda>s. s \<noteq> []) ss) \<and> nodeAt c' (take k ss) = Some u \<and>
               childOrCreate cmp u (ss ! k) = Inl e)"
        by blast
      have res: "addSegs cmp n (s # ss) pth h = (setChild n' s c', Some e)"
        using coc rec s by simp
      from k show ?thesis
      proof
        assume "e = ErrEmptySegment pth"
        with res show ?thesis by blast
      next
        assume "isConflictError e \<and>
            (\<exists>k u. k < length (takeWhile (\<lambda>s. s \<noteq> []) ss) \<and> nodeAt c' (take k ss) = Some u \<and>
               childOrCreate cmp u (ss ! k) = Inl e)"
        then obtain k u where ce: "isConflictError e"
          and kk: "k < length (takeWhile (\<lambda>s. s \<noteq> []) ss)"
          and at: "nodeAt c' (take k ss) = Some u" and f: "childOrCreate cmp u (ss ! k) = Inl e"
          by blast
        have "Suc k < length (takeWhile (\<lambda>s. s \<noteq> []) (s # ss))" using kk s by simp
        moreover have "nodeAt (setChild n' s c') (take (Suc k) (s # ss)) = Some u"
          using at by simp
        moreover have "childOrCreate cmp u ((s # ss) ! Suc k) = Inl e" using f by simp
        ultimately show ?thesis using res ce by blast
      qed
    qed
  qed
qed

lemma childOrCreate_bare:
  assumes "isBare n" and "s \<noteq> []"
  shows "\<exists>n' c. childOrCreate cmp n s = Inr (n', c) \<and> isBare c"
proof (cases "childOrCreate cmp n s")
  case (Inl e)
  from assms(2) have False
  proof (cases s rule: seg_cases)
    case star
    with Inl assms(1) show ?thesis by (simp add: childOrCreate_star isBare_def)
  next
    case reg
    with Inl assms(1) show ?thesis by (simp add: childOrCreate_reg isBare_def)
  next
    case param
    with Inl assms(1) show ?thesis by (simp add: childOrCreate_param isBare_def)
  next
    case static
    with Inl assms(1) show ?thesis by (simp add: childOrCreate_static isBare_def)
  qed
  then show ?thesis ..
next
  case (Inr y)
  then obtain n' c where coc: "childOrCreate cmp n s = Inr (n', c)" by (cases y) auto
  from childOrCreate_new(1) [OF coc childSlot_bare [OF assms(1)]] coc show ?thesis by simp
qed

lemma addSegs_bare:
  "isBare n \<Longrightarrow>
   snd (addSegs cmp n ss pth h) = (if [] \<in> set ss then Some (ErrEmptySegment pth) else None)"
proof (induction ss arbitrary: n)
  case Nil
  then show ?case by (simp add: isBare_def)
next
  case (Cons s ss)
  show ?case
  proof (cases "s = []")
    case True
    then show ?thesis by simp
  next
    case s: False
    from childOrCreate_bare [OF Cons.prems s, of cmp] obtain n' c
      where coc: "childOrCreate cmp n s = Inr (n', c)" and b: "isBare c" by blast
    from Cons.IH [OF b] coc s show ?thesis
      by (auto split: prod.splits)
  qed
qed

lemma addRoute_error_cases:
  "snd (addRoute cmp r m p h) =
     (if p = [] then Some ErrEmptyPath
      else if hd p \<noteq> CHR ''/'' then Some ErrNoLeadingSlash
      else if p \<noteq> ''/'' \<and> last p = CHR ''/'' then Some ErrTrailingSlash
      else if p = ''/'' then
        (case trees r m of
           None \<Rightarrow> None
         | Some root \<Rightarrow> if handler root \<noteq> None then Some (ErrRouteConflict ''/'') else None)
      else snd (addSegs cmp
                  (case trees r m of
                     Some n \<Rightarrow> n
                   | None \<Rightarrow> Node nodeTypeStatic ''/'' None None None None [] None None)
                  (splitSlash (tl p)) p h))"
  by (auto simp: addRoute_def Let_def split: prod.splits option.splits)

lemma invalid_iff:
  "\<not> validPath p \<longleftrightarrow>
     p = [] \<or> hd p \<noteq> CHR ''/'' \<or> p \<noteq> ''/'' \<and> last p = CHR ''/'' \<or>
     p \<noteq> ''/'' \<and> [] \<in> set (splitSlash (tl p))"
  by (auto simp: validPath_def)

lemma addRoute_validation_only_invalid:
  assumes "snd (addRoute cmp r m p h) = Some e" and "isValidationError e"
  shows "\<not> validPath p"
proof
  assume v: "validPath p"
  show False
  proof (cases "p = ''/''")
    case True
    with assms show ?thesis
      by (auto simp: addRoute_error_cases split: option.splits if_splits)
  next
    case False
    with v assms(1) have "snd (addSegs cmp
                  (case trees r m of
                     Some n \<Rightarrow> n
                   | None \<Rightarrow> Node nodeTypeStatic ''/'' None None None None [] None None)
                  (splitSlash (tl p)) p h) = Some e"
      by (simp add: addRoute_error_cases validPath_def)
    from addSegs_validation [OF this assms(2)] v False show ?thesis
      by (simp add: validPath_def)
  qed
qed

lemma addRoute_invalid_fails:
  assumes "\<not> validPath p"
  shows "\<exists>e. snd (addRoute cmp r m p h) = Some e \<and> (isValidationError e \<or> isConflictError e)"
proof (cases "p = [] \<or> hd p \<noteq> CHR ''/'' \<or> p \<noteq> ''/'' \<and> last p = CHR ''/''")
  case True
  then show ?thesis by (auto simp: addRoute_error_cases)
next
  case False
  with assms have p: "p \<noteq> ''/''" and mem: "[] \<in> set (splitSlash (tl p))"
    by (auto simp: invalid_iff)
  from addSegs_empty_fails [OF mem, of cmp "case trees r m of
                     Some n \<Rightarrow> n
                   | None \<Rightarrow> Node nodeTypeStatic ''/'' None None None None [] None None" p h]
  obtain e where e: "snd (addSegs cmp (case trees r m of
                     Some n \<Rightarrow> n
                   | None \<Rightarrow> Node nodeTypeStatic ''/'' None None None None [] None None)
                  (splitSlash (tl p)) p h) = Some e"
    and k: "e = ErrEmptySegment p \<or> isConflictError e"
    by blast
  from k have "isValidationError e \<or> isConflictError e" by auto
  with e False p show ?thesis
    by (simp add: addRoute_error_cases)
qed

lemma addRoute_fresh_tree:
  assumes "trees r m = None" and "\<not> validPath p"
  shows "\<exists>e. snd (addRoute cmp r m p h) = Some e \<and> isValidationError e"
proof (cases "p = [] \<or> hd p \<noteq> CHR ''/'' \<or> p \<noteq> ''/'' \<and> last p = CHR ''/''")
  case True
  then show ?thesis by (auto simp: addRoute_error_cases)
next
  case False
  with assms have p: "p \<noteq> ''/''" and mem: "[] \<in> set (splitSlash (tl p))"
    by (auto simp: invalid_iff)
  have "isBare (Node nodeTypeStatic ''/'' None None None None [] None None)"
    by (simp add: isBare_def childrenList_def)
  from addSegs_bare [OF this, of cmp "splitSlash (tl p)" p h] mem False p assms(1)
  show ?thesis by (auto simp: addRoute_error_cases)
qed

lemma addRoute_examples:
  "snd (addRoute cmp r m [] h) = Some ErrEmptyPath"
  "snd (addRoute cmp r m ''a/b'' h) = Some ErrNoLeadingSlash"
  "snd (addRoute cmp r m ''/a/'' h) = Some ErrTrailingSlash"
  "snd (addRoute cmp r m ''/a//b'' h) = Some (ErrEmptySegment ''/a//b'')"
proof -
  have st: "isStaticSeg ''a''" by (simp add: isStaticSeg_def)
  have "snd (addSegs cmp n [''a'', [], ''b''] ''/a//b'' h) = Some (ErrEmptySegment ''/a//b'')"
    for n :: "('a, 'b) node"
    by (simp add: childOrCreate_static [OF st] split: option.splits)
  then show "snd (addRoute cmp r m ''/a//b'' h) = Some (ErrEmptySegment ''/a//b'')"
    by (simp add: addRoute_error_cases)
qed (simp_all add: addRoute_error_cases)

lemma addRoute_invalid_outcome:
  assumes "\<not> validPath p"
  shows "\<exists>r1 e. addRoute cmp r m p h = (r1, Some e) \<and>
     (e = ErrEmptyPath \<or> e = ErrNoLeadingSlash \<or> e = ErrTrailingSlash \<or> e = ErrEmptySegment p \<or>
      isConflictError e \<and>
      (\<exists>root1 k u. trees r1 m = Some root1 \<and>
         k < length (takeWhile (\<lambda>s. s \<noteq> []) (splitSlash (tl p))) \<and>
         nodeAt root1 (take k (splitSlash (tl p))) = Some u \<and>
         childOrCreate cmp u (splitSlash (tl p) ! k) = Inl e))"
proof (cases "p = [] \<or> hd p \<noteq> CHR ''/'' \<or> p \<noteq> ''/'' \<and> last p = CHR ''/''")
  case True
  then show ?thesis by (auto simp: addRoute_def)
next
  case False
  with assms have p: "p \<noteq> ''/''" and mem: "[] \<in> set (splitSlash (tl p))"
    by (auto simp: invalid_iff)
  define root where "root = (case trees r m of Some n \<Rightarrow> n
             | None \<Rightarrow> Node nodeTypeStatic ''/'' None None None None [] None None)"
  from addSegs_empty_outcome [OF mem, of cmp root p h] obtain n1 e
    where seg: "addSegs cmp root (splitSlash (tl p)) p h = (n1, Some e)"
      and k: "e = ErrEmptySegment p \<or>
        isConflictError e \<and>
        (\<exists>k u. k < length (takeWhile (\<lambda>s. s \<noteq> []) (splitSlash (tl p))) \<and>
           nodeAt n1 (take k (splitSlash (tl p))) = Some u \<and>
           childOrCreate cmp u (splitSlash (tl p) ! k) = Inl e)"
    by blast
  have res: "addRoute cmp r m p h = (r\<lparr>trees := (trees r)(m \<mapsto> n1)\<rparr>, Some e)"
    using False p seg unfolding addRoute_def root_def [symmetric] by (simp add: Let_def)
  have "trees (r\<lparr>trees := (trees r)(m \<mapsto> n1)\<rparr>) m = Some n1" by simp
  with res k show ?thesis by blast
qed




section \<open>Expressions that do not compile\<close>

lemma eraseRe_sel [simp]:
  "typ' (eraseRe n) = typ' n" "path (eraseRe n) = path n" "handler (eraseRe n) = handler n"
  "paramName (eraseRe n) = paramName n" "regExpr (eraseRe n) = None"
  "starChild (eraseRe n) = map_option eraseRe (starChild n)"
  "paramChild (eraseRe n) = map_option eraseRe (paramChild n)"
  "regChild (eraseRe n) = map_option eraseRe (regChild n)"
  "children (eraseRe n) = map_option (map (\<lambda>kc. (fst kc, eraseRe (snd kc)))) (children n)"
  by (cases n; simp)+

lemma eraseRe_childrenList [simp]:
  "childrenList (eraseRe n) = map (\<lambda>kc. (fst kc, eraseRe (snd kc))) (childrenList n)"
  by (cases "children n") (simp_all add: childrenList_def)

lemma eraseRe_set [simp]:
  "eraseRe (set_handler n h) = set_handler (eraseRe n) h"
  "eraseRe (set_starChild n v) = set_starChild (eraseRe n) (map_option eraseRe v)"
  "eraseRe (set_paramChild n v) = set_paramChild (eraseRe n) (map_option eraseRe v)"
  "eraseRe (set_regChild n v) = set_regChild (eraseRe n) (map_option eraseRe v)"
  "eraseRe (set_children n cs) =
     set_children (eraseRe n) (map_option (map (\<lambda>kc. (fst kc, eraseRe (snd kc)))) cs)"
  by (cases n; simp)+

lemma map_of_map_snd:
  "map_of (map (\<lambda>kc. (fst kc, f (snd kc))) xs) k = map_option f (map_of xs k)"
  by (induction xs) auto

lemma update_map_snd:
  "AList.update k (f v) (map (\<lambda>kc. (fst kc, f (snd kc))) xs) =
   map (\<lambda>kc. (fst kc, f (snd kc))) (AList.update k v xs)"
  by (induction xs) auto

lemma eraseRe_newNode [simp]: "eraseRe (newNode p t) = newNode p t"
  by (simp add: newNode_def)

lemma eraseRe_setChild: "eraseRe (setChild n p c) = setChild (eraseRe n) p (eraseRe c)"
  by (simp add: setChild_def update_map_snd)

lemma childOrCreate_erase:
  "childOrCreate (\<lambda>e. None) (eraseRe n) p =
     map_sum id (map_prod eraseRe eraseRe) (childOrCreate cmp n p)"
proof (cases "p = []")
  case True
  then show ?thesis by (simp add: childOrCreate_def)
next
  case False
  then show ?thesis
  proof (cases p rule: seg_cases)
    case star
    then show ?thesis by (simp add: childOrCreate_star split: option.splits)
  next
    case reg
    then show ?thesis by (simp add: childOrCreate_reg split: option.splits)
  next
    case param
    then show ?thesis by (simp add: childOrCreate_param split: option.splits)
  next
    case static
    then show ?thesis
      by (simp add: childOrCreate_static map_of_map_snd update_map_snd [symmetric]
          split: option.splits)
  qed
qed

lemma addSegs_erase:
  "addSegs (\<lambda>e. None) (eraseRe n) ss pth h = map_prod eraseRe id (addSegs cmp n ss pth h)"
proof (induction ss arbitrary: n)
  case Nil
  then show ?case by simp
next
  case (Cons s ss)
  show ?case
  proof (cases "childOrCreate cmp n s")
    case (Inl e)
    with childOrCreate_erase [of n s cmp] show ?thesis by simp
  next
    case (Inr y)
    then obtain n' c where coc: "childOrCreate cmp n s = Inr (n', c)" by (cases y) auto
    with childOrCreate_erase [of n s cmp]
    have "childOrCreate (\<lambda>e. None) (eraseRe n) s = Inr (eraseRe n', eraseRe c)" by simp
    with coc Cons.IH [of c] show ?thesis
      by (simp add: eraseRe_setChild split: prod.splits)
  qed
qed

lemma addSegs_same_outcome:
  assumes "eraseRe n = eraseRe n'"
  shows "snd (addSegs cmp n ss pth h) = snd (addSegs cmp' n' ss pth h)"
    and "eraseRe (fst (addSegs cmp n ss pth h)) = eraseRe (fst (addSegs cmp' n' ss pth h))"
proof -
  have "map_prod eraseRe id (addSegs cmp n ss pth h) = map_prod eraseRe id (addSegs cmp' n' ss pth h)"
    using addSegs_erase [of n ss pth h cmp] addSegs_erase [of n' ss pth h cmp'] assms by simp
  then show "snd (addSegs cmp n ss pth h) = snd (addSegs cmp' n' ss pth h)"
    and "eraseRe (fst (addSegs cmp n ss pth h)) = eraseRe (fst (addSegs cmp' n' ss pth h))"
    by (simp_all add: prod_eq_iff)
qed

lemma addRoute_same_outcome:
  assumes "eraseTrees r = eraseTrees r'"
  shows "snd (addRoute cmp r m p h) = snd (addRoute cmp' r' m p h)"
    and "eraseTrees (fst (addRoute cmp r m p h)) = eraseTrees (fst (addRoute cmp' r' m p h))"
proof -
  define root where "root = (case trees r m of Some n \<Rightarrow> n
             | None \<Rightarrow> Node nodeTypeStatic ''/'' None None None None [] None None)"
  define root' where "root' = (case trees r' m of Some n \<Rightarrow> n
             | None \<Rightarrow> Node nodeTypeStatic ''/'' None None None None [] None None)"
  from assms have t: "map_option eraseRe (trees r k) = map_option eraseRe (trees r' k)" for k
    by (simp add: eraseTrees_def fun_eq_iff)
  from t [of m] have e: "eraseRe root = eraseRe root'"
    by (cases "trees r m"; cases "trees r' m") (simp_all add: root_def root'_def)
  then have hd: "handler root = handler root'" by (metis eraseRe_sel(3))
  note s = addSegs_same_outcome [OF e, of cmp "splitSlash (tl p)" p h cmp']
  have upd: "eraseTrees (r\<lparr>trees := (trees r)(m \<mapsto> x)\<rparr>) = eraseTrees (r'\<lparr>trees := (trees r')(m \<mapsto> x')\<rparr>)"
    if "eraseRe x = eraseRe x'" for x x'
    using that t by (auto simp: eraseTrees_def fun_eq_iff)
  have eh: "eraseRe (set_handler root h) = eraseRe (set_handler root' h)"
    using e by simp
  show "snd (addRoute cmp r m p h) = snd (addRoute cmp' r' m p h)"
    unfolding addRoute_def root_def [symmetric] root'_def [symmetric] Let_def
    using s(1) hd by (auto split: prod.splits)
  show "eraseTrees (fst (addRoute cmp r m p h)) = eraseTrees (fst (addRoute cmp' r' m p h))"
    unfolding addRoute_def root_def [symmetric] root'_def [symmetric] Let_def
    using s(2) hd assms upd [OF e] upd [OF eh] upd [OF s(2)]
    by (auto split: prod.splits)
qed

lemma addSegs_error_kind:
  "snd (addSegs cmp n ss pth h) = Some e \<Longrightarrow> isValidationError e \<or> isConflictError e"
proof (induction ss arbitrary: n)
  case Nil
  then show ?case by (auto split: if_splits)
next
  case (Cons s ss)
  show ?case
  proof (cases "s = []")
    case True
    with Cons.prems show ?thesis by auto
  next
    case s: False
    show ?thesis
    proof (cases "childOrCreate cmp n s")
      case (Inl e')
      with childOrCreate_error [OF Inl] Cons.prems s show ?thesis by auto
    next
      case (Inr y)
      then obtain n' c where coc: "childOrCreate cmp n s = Inr (n', c)" by (cases y) auto
      with Cons.prems s have "snd (addSegs cmp c ss pth h) = Some e"
        by (auto split: prod.splits)
      then show ?thesis by (rule Cons.IH)
    qed
  qed
qed

lemma addRoute_error_kind:
  assumes "snd (addRoute cmp r m p h) = Some e"
  shows "isValidationError e \<or> isConflictError e"
proof (cases "p = [] \<or> hd p \<noteq> CHR ''/'' \<or> p \<noteq> ''/'' \<and> last p = CHR ''/'' \<or> p = ''/''")
  case True
  with assms show ?thesis
    by (auto simp: addRoute_error_cases split: if_splits option.splits)
next
  case False
  with assms have "snd (addSegs cmp
                  (case trees r m of
                     Some n \<Rightarrow> n
                   | None \<Rightarrow> Node nodeTypeStatic ''/'' None None None None [] None None)
                  (splitSlash (tl p)) p h) = Some e"
    by (auto simp: addRoute_error_cases split: if_splits)
  then show ?thesis by (rule addSegs_error_kind)
qed

lemma addSegs_nodeInv:
  "allNodes (nodeInv cmp) n \<Longrightarrow> allNodes (nodeInv cmp) (fst (addSegs cmp n ss pth h))"
  apply (rule addSegs_allNodes [where P = "nodeInv cmp" and cmp = cmp])
     apply (erule nodeInv_set_handler)
    apply (erule (5) nodeInv_step)
   apply (rule nodeInv_bare)
   apply (erule (1) childOrCreate_new(1))
  apply assumption
  done

lemma nodeAt_allNodes:
  "allNodes P n \<Longrightarrow> nodeAt n ss = Some u \<Longrightarrow> allNodes P u"
proof (induction ss arbitrary: n)
  case Nil
  then show ?case by simp
next
  case (Cons s ss)
  from Cons.prems(2) obtain c where c: "childSlot n s = Some c" and at: "nodeAt c ss = Some u"
    by (auto split: option.splits)
  from Cons.prems(1) childSlot_kids [OF c] have "allNodes P c"
    by (simp add: allNodes_kids [of P n])
  from Cons.IH [OF this at] show ?case .
qed

lemma addSegs_reg_child:
  assumes inv: "allNodes (nodeInv cmp) n"
    and ok: "addSegs cmp n (pre @ s # post) pth h = (n1, None)"
    and s: "isRegPath s"
  shows "\<exists>c. nodeAt n1 (pre @ [s]) = Some c \<and> typ' c = nodeTypeReg \<and> path c = s \<and>
           paramName c = regName s \<and> regExpr c = cmp (regExprText s)"
proof -
  from addSegs_split [OF ok] obtain u0 u where at: "nodeAt n1 pre = Some u"
    and w: "addSegs cmp u0 (s # post) pth h = (u, None)"
    by blast
  from w obtain u2 c c' where coc: "childOrCreate cmp u0 s = Inr (u2, c)"
    and rec: "addSegs cmp c post pth h = (c', None)"
    and u: "u = setChild u2 s c'"
    by (auto split: if_splits sum.splits prod.splits)
  from special_child_facts(2) [OF coc addSegs_fields(2) [OF rec] u s]
  have rc: "regChild u = Some c'" and pc: "path c' = s" by simp_all
  from addSegs_nodeInv [OF inv, of "pre @ s # post" pth h] ok have "allNodes (nodeInv cmp) n1" by simp
  from nodeAt_allNodes [OF this at] have "nodeInv cmp u" by (simp add: allNodes_kids [of _ u])
  from nodeInv_regChild [OF this rc] pc
  have "typ' c' = nodeTypeReg \<and> path c' = s \<and> paramName c' = regName s \<and>
      regExpr c' = cmp (regExprText s)" by simp
  moreover have "nodeAt n1 (pre @ [s]) = Some c'"
    using at rc s by (simp add: nodeAt_append childSlot_simps)
  ultimately show ?thesis by blast
qed

lemma addRoute_fresh_success:
  assumes "trees r m = None" and "validPath p"
  shows "snd (addRoute cmp r m p h) = None"
proof -
  have "isBare (Node nodeTypeStatic ''/'' None None None None [] None None)"
    by (simp add: isBare_def childrenList_def)
  from addSegs_bare [OF this, of cmp "splitSlash (tl p)" p h] assms show ?thesis
    by (auto simp: addRoute_error_cases validPath_def)
qed

lemma addSegs_prefix_then:
  "addSegs cmp n (pre @ ss) pth h = (n1, None) \<Longrightarrow> nodeAt n1 pre = Some u \<Longrightarrow>
   addSegs cmp u ts pth' h' = (u', e) \<Longrightarrow>
   \<exists>n2. addSegs cmp n1 (pre @ ts) pth' h' = (n2, e) \<and> nodeAt n2 pre = Some u'"
proof (induction pre arbitrary: n n1)
  case Nil
  then show ?case by simp
next
  case (Cons p pre)
  from Cons.prems(1) obtain n' c c' where p: "p \<noteq> []"
    and coc: "childOrCreate cmp n p = Inr (n', c)"
    and rec: "addSegs cmp c (pre @ ss) pth h = (c', None)"
    and n1: "n1 = setChild n' p c'"
    by (auto split: if_splits sum.splits prod.splits)
  from Cons.prems(2) have at: "nodeAt c' pre = Some u" by (simp add: n1)
  from Cons.IH [OF rec at Cons.prems(3)] obtain c2
    where c2: "addSegs cmp c' (pre @ ts) pth' h' = (c2, e)" "nodeAt c2 pre = Some u'" by blast
  from childOrCreate_again [OF coc addSegs_fields(2) [OF rec]]
  have "childOrCreate cmp n1 p = Inr (n1, c')" by (simp add: n1)
  with c2 p show ?case by simp
qed

lemma addSegs_free_reg:
  assumes "starChild u = None" "paramChild u = None" "regChild u = None"
    and "isRegPath s" and "[] \<notin> set post"
  shows "snd (addSegs cmp u (s # post) pth h) = None"
proof -
  let ?c = "Node nodeTypeReg s None None None None (regName s) None (cmp (regExprText s))"
  have coc: "childOrCreate cmp u s = Inr (set_regChild u (Some ?c), ?c)"
    using assms by (simp add: childOrCreate_reg)
  have "isBare ?c" by (simp add: isBare_def childrenList_def)
  from addSegs_bare [OF this, of cmp post pth h] assms(5)
  have "snd (addSegs cmp ?c post pth h) = None" by simp
  moreover from isRegPath_hd [OF assms(4)] have "s \<noteq> []" by simp
  ultimately show ?thesis using coc by (auto split: prod.splits)
qed

lemma addRoute_under_prefix:
  assumes ok: "addRoute cmp r m p0 h0 = (r1, None)" and p0: "segsOf p0 = pre @ post0"
    and t: "trees r1 m = Some root1" and at: "nodeAt root1 pre = Some u"
    and free: "starChild u = None" "paramChild u = None" "regChild u = None"
    and q: "validPath q" "segsOf q = pre @ s # post" and s: "isRegPath s"
  shows "snd (addRoute cmp r1 m q h) = None"
proof -
  from ok obtain root root1' where seg: "addSegs cmp root (segsOf p0) p0 h0 = (root1', None)"
    and r1: "r1 = r\<lparr>trees := (trees r)(m \<mapsto> root1')\<rparr>"
    by (rule addRoute_success)
  from t r1 have eq: "root1' = root1" by simp
  from q have qn: "q \<noteq> ''/''" by (auto simp: segsOf_def)
  with q have "[] \<notin> set post" by (auto simp: validPath_def segsOf_def)
  from addSegs_free_reg [OF free s this, of cmp q h]
  obtain u' where "addSegs cmp u (s # post) q h = (u', None)"
    by (cases "addSegs cmp u (s # post) q h") auto
  from addSegs_prefix_then [OF seg [unfolded p0 eq] at this]
  obtain n2 where "addSegs cmp root1 (pre @ s # post) q h = (n2, None)" by blast
  with q qn t show ?thesis
    by (simp add: addRoute_error_cases validPath_def segsOf_def)
qed

lemma addRoute_reg_child:
  assumes re: "reachable cmp r" and ok: "addRoute cmp r m pth h = (r1, None)"
    and p: "segsOf pth = pre @ s # post" and s: "isRegPath s"
  shows "\<exists>root1 c. trees r1 m = Some root1 \<and> nodeAt root1 (pre @ [s]) = Some c \<and>
           typ' c = nodeTypeReg \<and> path c = s \<and> paramName c = regName s \<and>
           regExpr c = cmp (regExprText s)"
proof -
  from ok obtain root root1
    where root: "root = (case trees r m of Some n \<Rightarrow> n
             | None \<Rightarrow> Node nodeTypeStatic ''/'' None None None None [] None None)"
    and seg: "addSegs cmp root (segsOf pth) pth h = (root1, None)"
    and r1: "r1 = r\<lparr>trees := (trees r)(m \<mapsto> root1)\<rparr>"
    by (rule addRoute_success)
  have inv: "allNodes (nodeInv cmp) root"
  proof (cases "trees r m")
    case None
    then show ?thesis by (simp add: root nodeInv_def exclusive_def childrenList_def)
  next
    case (Some n)
    with reachable_nodeInv [OF re] show ?thesis
      by (auto simp: root allTrees_def ran_def)
  qed
  from addSegs_reg_child [OF inv seg [unfolded p] s] r1 show ?thesis by simp
qed



end
